theory Spec2Isabelle
  imports Complex_Main
begin

section \<open>Numbers and vectors\<close>

text \<open>
  A JavaScript number is modelled as an exact real or NaN. NaN is what arithmetic on
  \<open>undefined\<close> (a typed-array read out of range) produces, and every comparison with
  it is false. Rounding to 32 or 64 bits, infinities and overflow are outside the model.
\<close>

datatype number = Fin real | NaN

fun nadd :: "number \<Rightarrow> number \<Rightarrow> number" where
  "nadd (Fin a) (Fin b) = Fin (a + b)"
| "nadd _ _ = NaN"

fun nsub :: "number \<Rightarrow> number \<Rightarrow> number" where
  "nsub (Fin a) (Fin b) = Fin (a - b)"
| "nsub _ _ = NaN"

fun nmul :: "number \<Rightarrow> number \<Rightarrow> number" where
  "nmul (Fin a) (Fin b) = Fin (a * b)"
| "nmul _ _ = NaN"

text \<open>\<open>a / b\<close>; the code only divides by \<open>length() || 1\<close>, which is never zero.\<close>

fun ndiv :: "number \<Rightarrow> number \<Rightarrow> number" where
  "ndiv (Fin a) (Fin b) = Fin (a / b)"
| "ndiv _ _ = NaN"

fun nsqrt :: "number \<Rightarrow> number" where
  "nsqrt (Fin a) = (if a < 0 then NaN else Fin (sqrt a))"
| "nsqrt NaN = NaN"

fun ncos :: "number \<Rightarrow> number" where
  "ncos (Fin a) = Fin (cos a)"
| "ncos NaN = NaN"

text \<open>\<open>a < b\<close>: false as soon as one side is NaN.\<close>

fun nlt :: "number \<Rightarrow> number \<Rightarrow> bool" where
  "nlt (Fin a) (Fin b) = (a < b)"
| "nlt _ _ = False"

text \<open>\<open>a || 1\<close>: zero and NaN are falsy.\<close>

fun or_one :: "number \<Rightarrow> number" where
  "or_one (Fin a) = (if a = 0 then Fin 1 else Fin a)"
| "or_one NaN = Fin 1"

text \<open>The methods of the library's \<open>Vector3\<close> that the modifier calls.\<close>

datatype Vector3 = Vector3 (vx: number) (vy: number) (vz: number)

definition sub :: "Vector3 \<Rightarrow> Vector3 \<Rightarrow> Vector3" where
  "sub a b = Vector3 (nsub (vx a) (vx b)) (nsub (vy a) (vy b)) (nsub (vz a) (vz b))"

definition cross :: "Vector3 \<Rightarrow> Vector3 \<Rightarrow> Vector3" where
  "cross a b = Vector3
     (nsub (nmul (vy a) (vz b)) (nmul (vz a) (vy b)))
     (nsub (nmul (vz a) (vx b)) (nmul (vx a) (vz b)))
     (nsub (nmul (vx a) (vy b)) (nmul (vy a) (vx b)))"

definition dot :: "Vector3 \<Rightarrow> Vector3 \<Rightarrow> number" where
  "dot a b = nadd (nadd (nmul (vx a) (vx b)) (nmul (vy a) (vy b))) (nmul (vz a) (vz b))"

definition vlength :: "Vector3 \<Rightarrow> number" where
  "vlength a = nsqrt (nadd (nadd (nmul (vx a) (vx a)) (nmul (vy a) (vy a))) (nmul (vz a) (vz a)))"

definition multiplyScalar :: "Vector3 \<Rightarrow> number \<Rightarrow> Vector3" where
  "multiplyScalar a s = Vector3 (nmul (vx a) s) (nmul (vy a) s) (nmul (vz a) s)"

definition divideScalar :: "Vector3 \<Rightarrow> number \<Rightarrow> Vector3" where
  "divideScalar a s = multiplyScalar a (ndiv (Fin 1) s)"

definition normalizeV :: "Vector3 \<Rightarrow> Vector3" where
  "normalizeV a = divideScalar a (or_one (vlength a))"

section \<open>Typed arrays\<close>

text \<open>
  A read of a \<open>Float32Array\<close>: \<open>undefined\<close> out of range, and at an index that is
  itself \<open>undefined\<close> (\<open>None\<close>); the arithmetic that follows turns it into NaN.
\<close>

definition f32_get :: "number list \<Rightarrow> nat option \<Rightarrow> number" where
  "f32_get a k = (case k of None \<Rightarrow> NaN | Some i \<Rightarrow> if i < length a then a ! i else NaN)"

text \<open>A read of the index buffer: \<open>undefined\<close> out of range.\<close>

definition idx_get :: "nat list \<Rightarrow> nat \<Rightarrow> nat option" where
  "idx_get a i = (if i < length a then Some (a ! i) else None)"

text \<open>The three components of the vertex \<open>index\<close> in a buffer of item size 3.\<close>

definition vec_at :: "number list \<Rightarrow> nat option \<Rightarrow> Vector3" where
  "vec_at a index = Vector3
     (f32_get a (map_option (\<lambda>i. 3 * i) index))
     (f32_get a (map_option (\<lambda>i. 3 * i + 1) index))
     (f32_get a (map_option (\<lambda>i. 3 * i + 2) index))"

section \<open>Face normals\<close>

text \<open>
  The normal of the triangle that starts at slot \<open>i\<close>: \<open>_C.sub(_B)\<close>,
  \<open>_A.sub(_B)\<close>, then \<open>_C.cross(_A).normalize()\<close>.
\<close>

definition faceNormal :: "nat list \<Rightarrow> number list \<Rightarrow> nat \<Rightarrow> Vector3" where
  "faceNormal ixs positions i =
     (let A = vec_at positions (idx_get ixs i);
          B = vec_at positions (idx_get ixs (i + 1));
          C = vec_at positions (idx_get ixs (i + 2))
      in normalizeV (cross (sub C B) (sub A B)))"

text \<open>
  \<open>computeNormals\<close>: a buffer of \<open>3 * indexes.length\<close> components; the loop visits
  the slots \<open>0, 3, 6, ...\<close> and writes the triangle's normal at its three corners. A
  write past the end of the buffer (the last triangle of an index buffer whose length is
  no multiple of 3) is dropped.
\<close>

definition computeNormals :: "nat list \<Rightarrow> number list \<Rightarrow> number list" where
  "computeNormals ixs positions =
     take (3 * length ixs)
       (concat (map (\<lambda>t. let normal = faceNormal ixs positions (3 * t)
                          in concat (replicate 3 [vx normal, vy normal, vz normal]))
                    [0 ..< (length ixs + 2) div 3]))"

section \<open>The corner index\<close>

datatype error =
    LegacyGeometry
  | NoBufferGeometryUtils
  | TypeError
  | RangeError

text \<open>
  \<open>LegacyGeometry\<close>: \<open>console.error\<close> and \<open>return\<close> with no value, for an input whose
  \<open>isGeometry\<close> is true. \<open>NoBufferGeometryUtils\<close>: the string thrown when the input
  has no index and \<open>BufferGeometryUtils\<close> is undefined. \<open>TypeError\<close> and
  \<open>RangeError\<close>: the exceptions of the language itself.
\<close>

text \<open>
  Whether the failure reaches the caller as an exception. All do but
  \<open>LegacyGeometry\<close>: after \<open>console.error\<close> the call returns as any call does, and
  the caller receives \<open>undefined\<close>.
\<close>

fun thrown :: "error \<Rightarrow> bool" where
  "thrown LegacyGeometry = False"
| "thrown NoBufferGeometryUtils = True"
| "thrown TypeError = True"
| "thrown RangeError = True"

text \<open>
  One step of the loop of \<open>mapPositionsToIndexes\<close>. An array entry is a hole
  (\<open>None\<close>) until a corner references its vertex; a store past the end of the array
  extends it with holes.
\<close>

definition pushCorner :: "nat list \<Rightarrow> nat list option list \<Rightarrow> nat \<Rightarrow> nat list option list" where
  "pushCorner ixs m i =
     (let index = ixs ! i;
          m' = m @ replicate (Suc index - length m) None
      in m'[index := Some ((case m' ! index of None \<Rightarrow> [] | Some l \<Rightarrow> l) @ [i])])"

text \<open>\<open>Array(positions.length / 3)\<close> raises a RangeError when the length is no integer.\<close>

definition mapPositionsToIndexes :: "number list \<Rightarrow> nat list \<Rightarrow> error + nat list option list" where
  "mapPositionsToIndexes positions ixs =
     (if length positions mod 3 \<noteq> 0 then Inl RangeError
      else Inr (foldl (pushCorner ixs) (replicate (length positions div 3) None) [0 ..< length ixs]))"

section \<open>The group partitioner\<close>

record groupResult =
  splitGroup :: "nat list"
  currentGroup :: "nat list"

record split =
  original :: nat
  indexes :: "nat list"

definition groupStep :: "number list \<Rightarrow> number \<Rightarrow> nat \<Rightarrow> groupResult \<Rightarrow> nat \<Rightarrow> groupResult" where
  "groupStep normals cutOff firstIndex result j =
     (if j \<noteq> firstIndex then
        (let B = normalizeV (vec_at normals (Some j));
             A = normalizeV (vec_at normals (Some firstIndex))
         in if nlt (dot B A) cutOff
            then result\<lparr>splitGroup := splitGroup result @ [j]\<rparr>
            else result\<lparr>currentGroup := currentGroup result @ [j]\<rparr>)
      else result)"

definition edgeSplitToGroups :: "number list \<Rightarrow> nat list \<Rightarrow> number \<Rightarrow> nat \<Rightarrow> groupResult" where
  "edgeSplitToGroups normals ixs cutOff firstIndex =
     foldl (groupStep normals cutOff firstIndex)
       \<lparr>splitGroup = [], currentGroup = [firstIndex]\<rparr> ixs"

text \<open>
  Lines 114 to 132 of \<open>edgeSplit\<close>: one trial partition per corner, and the first of
  those whose \<open>currentGroup\<close> is longest. It is called on a non-empty list only.
\<close>

definition longer :: "groupResult \<Rightarrow> groupResult \<Rightarrow> groupResult" where
  "longer result groupResult =
     (if length (currentGroup groupResult) > length (currentGroup result)
      then groupResult else result)"

definition chooseGroup :: "number list \<Rightarrow> nat list \<Rightarrow> number \<Rightarrow> groupResult" where
  "chooseGroup normals ixs cutOff =
     (let groupResults = map (edgeSplitToGroups normals ixs cutOff) ixs
      in foldl longer (groupResults ! 0) groupResults)"

text \<open>\<open>original || first\<close>: \<open>null\<close> and \<open>0\<close> are falsy.\<close>

fun or_else :: "nat option \<Rightarrow> nat \<Rightarrow> nat" where
  "or_else None first = first"
| "or_else (Some 0) first = first"
| "or_else (Some n) first = n"

lemma splitGroup_foldl_length:
  "length (splitGroup (foldl (groupStep normals cutOff s) r xs))
     = length (splitGroup r) + length (filter (\<lambda>j. j \<noteq> s \<and>
         nlt (dot (normalizeV (vec_at normals (Some j))) (normalizeV (vec_at normals (Some s)))) cutOff) xs)"
  by (induction xs arbitrary: r) (simp_all add: groupStep_def Let_def)

lemma splitGroup_shorter:
  assumes "s \<in> set xs"
  shows "length (splitGroup (edgeSplitToGroups normals xs cutOff s)) < length xs"
proof -
  let ?P = "\<lambda>j. j \<noteq> s \<and>
         nlt (dot (normalizeV (vec_at normals (Some j))) (normalizeV (vec_at normals (Some s)))) cutOff"
  have "length (filter ?P xs) < length xs"
    using assms by (intro length_filter_less[of s]) auto
  then show ?thesis
    by (simp add: edgeSplitToGroups_def splitGroup_foldl_length)
qed

lemma foldl_longer_cases:
  "foldl longer r gs = r \<or> foldl longer r gs \<in> set gs"
proof (induction gs arbitrary: r)
  case Nil
  then show ?case by simp
next
  case (Cons g gs)
  from Cons.IH[of "longer r g"] show ?case
    by (auto simp: longer_def split: if_splits)
qed

lemma chooseGroup_cases:
  assumes "xs \<noteq> []"
  shows "\<exists>s \<in> set xs. chooseGroup normals xs cutOff = edgeSplitToGroups normals xs cutOff s"
proof -
  let ?gs = "map (edgeSplitToGroups normals xs cutOff) xs"
  from assms have "?gs ! 0 \<in> set ?gs"
    by (intro nth_mem) simp
  with foldl_longer_cases[of "?gs ! 0" ?gs]
  have "chooseGroup normals xs cutOff \<in> set ?gs"
    by (auto simp: chooseGroup_def Let_def)
  then show ?thesis by auto
qed

lemma chooseGroup_shorter:
  assumes "xs \<noteq> []"
  shows "length (splitGroup (chooseGroup normals xs cutOff)) < length xs"
  using chooseGroup_cases[OF assms, of normals cutOff] splitGroup_shorter by auto

text \<open>
  \<open>edgeSplit\<close>, returning the entries it pushes on \<open>splitIndexes\<close>, in the order of
  the pushes. \<open>original\<close> is \<open>None\<close> for \<open>null\<close>.
\<close>

function edgeSplit :: "number list \<Rightarrow> nat list \<Rightarrow> number \<Rightarrow> nat option \<Rightarrow> split list" where
  "edgeSplit normals ixs cutOff orig =
     (if ixs = [] then []
      else
        (case orig of
           None \<Rightarrow> []
         | Some n \<Rightarrow> [\<lparr>original = n, indexes = currentGroup (chooseGroup normals ixs cutOff)\<rparr>])
        @ (if splitGroup (chooseGroup normals ixs cutOff) \<noteq> []
           then edgeSplit normals (splitGroup (chooseGroup normals ixs cutOff)) cutOff
                  (Some (or_else orig (currentGroup (chooseGroup normals ixs cutOff) ! 0)))
           else []))"
  by pat_completeness auto
termination
  by (relation "measure (\<lambda>(normals, ixs, cutOff, orig). length ixs)")
     (simp_all add: chooseGroup_shorter)

declare edgeSplit.simps [simp del]

text \<open>
  The loop of \<open>modify\<close> over \<open>pointToIndexMap\<close>: \<open>edgeSplit\<close> on every entry, with
  \<open>original\<close> left at \<open>null\<close>. On a hole, \<open>indexes.length\<close> reads a property of
  \<open>undefined\<close>: a TypeError.
\<close>

fun splitAll :: "number list \<Rightarrow> number \<Rightarrow> nat list option list \<Rightarrow> error + split list" where
  "splitAll normals cutOff [] = Inr []"
| "splitAll normals cutOff (None # m) = Inl TypeError"
| "splitAll normals cutOff (Some vertexIndexes # m) =
     (case splitAll normals cutOff m of
        Inl e \<Rightarrow> Inl e
      | Inr rest \<Rightarrow> Inr (edgeSplit normals vertexIndexes cutOff None @ rest))"

section \<open>Meshes\<close>

record BufferAttribute =
  array :: "number list"
  itemSize :: nat
  normalized :: bool

text \<open>
  \<open>attributes\<close> lists the attributes in the order of \<open>Object.keys\<close>. \<open>index\<close> is the
  array of the index attribute, \<open>None\<close> for \<open>null\<close>.
\<close>

record BufferGeometry =
  isGeometry :: bool
  index :: "nat list option"
  attributes :: "(string \<times> BufferAttribute) list"

definition getAttribute :: "BufferGeometry \<Rightarrow> string \<Rightarrow> BufferAttribute option" where
  "getAttribute g name = map_of (attributes g) name"

definition deleteAttribute :: "BufferGeometry \<Rightarrow> string \<Rightarrow> BufferGeometry" where
  "deleteAttribute g name = g\<lparr>attributes := filter (\<lambda>na. fst na \<noteq> name) (attributes g)\<rparr>"

definition count :: "BufferAttribute \<Rightarrow> nat" where
  "count a = length (array a) div itemSize a"

text \<open>
  \<open>computeVertexNormals\<close> of the library. Its arithmetic is a parameter \<open>cvn\<close>: the
  component \<open>k\<close> of the normal buffer it computes from an index buffer and a position
  buffer. What the model fixes is the buffer it fills: a new attribute \<open>normal\<close> of
  \<open>3 * count\<close> components when the geometry has none, the existing one otherwise; a
  geometry with no position attribute is left as it is.
\<close>

definition computeVertexNormals ::
  "(nat list \<Rightarrow> number list \<Rightarrow> nat \<Rightarrow> number) \<Rightarrow> BufferGeometry \<Rightarrow> BufferGeometry" where
  "computeVertexNormals cvn g =
     (case getAttribute g ''position'' of
        None \<Rightarrow> g
      | Some p \<Rightarrow>
          (let f = cvn (case index g of None \<Rightarrow> [] | Some ixs \<Rightarrow> ixs) (array p)
           in case getAttribute g ''normal'' of
                None \<Rightarrow> g\<lparr>attributes := attributes g @
                  [(''normal'', \<lparr>array = map f [0 ..< 3 * count p], itemSize = 3, normalized = False\<rparr>)]\<rparr>
              | Some n \<Rightarrow> g\<lparr>attributes := map (\<lambda>na. if fst na = ''normal''
                    then (fst na, (snd na)\<lparr>array := map f [0 ..< length (array (snd na))]\<rparr>)
                    else na) (attributes g)\<rparr>))"

section \<open>The topology rebuilder\<close>

text \<open>
  Lines 216 to 219: a zero-filled array of \<open>new_nb_indices * itemSize\<close> components,
  then \<open>set\<close> of the old array, which raises a RangeError when the old one is longer.
\<close>

definition growAttribute :: "nat \<Rightarrow> BufferAttribute \<Rightarrow> error + BufferAttribute" where
  "growAttribute new_nb_indices oldAttribute =
     (let n = new_nb_indices * itemSize oldAttribute
      in if length (array oldAttribute) > n then Inl RangeError
         else Inr \<lparr>array = array oldAttribute @ replicate (n - length (array oldAttribute)) (Fin 0),
                   itemSize = itemSize oldAttribute,
                   normalized = normalized oldAttribute\<rparr>)"

fun growAttributes :: "nat \<Rightarrow> (string \<times> BufferAttribute) list \<Rightarrow> error + (string \<times> BufferAttribute) list" where
  "growAttributes new_nb_indices [] = Inr []"
| "growAttributes new_nb_indices ((name, oldAttribute) # rest) =
     (case growAttribute new_nb_indices oldAttribute of
        Inl e \<Rightarrow> Inl e
      | Inr a \<Rightarrow>
          (case growAttributes new_nb_indices rest of
             Inl e \<Rightarrow> Inl e
           | Inr as \<Rightarrow> Inr ((name, a) # as)))"

text \<open>
  Lines 232 to 237: the components of the vertex \<open>index\<close> are copied to the slot
  \<open>old_nb_indices + i\<close> of the same array. \<open>index\<close> is \<open>None\<close> when
  \<open>indexes[split.original]\<close> is undefined.
\<close>

definition copyVertex :: "nat \<Rightarrow> nat \<Rightarrow> nat option \<Rightarrow> BufferAttribute \<Rightarrow> BufferAttribute" where
  "copyVertex old_nb_indices i vertex attribute =
     attribute\<lparr>array :=
       foldl (\<lambda>arr j. arr[(old_nb_indices + i) * itemSize attribute + j :=
                 f32_get arr (map_option (\<lambda>v. v * itemSize attribute + j) vertex)])
             (array attribute) [0 ..< itemSize attribute]\<rparr>"

text \<open>One round of the loop of lines 225 to 247, on the pair of the new attributes and the new index buffer.\<close>

definition applySplit ::
  "nat list \<Rightarrow> nat \<Rightarrow> (string \<times> BufferAttribute) list \<times> nat list \<Rightarrow> nat \<times> split
     \<Rightarrow> (string \<times> BufferAttribute) list \<times> nat list" where
  "applySplit ixs old_nb_indices st isp =
     (let i = fst isp; sp = snd isp;
          vertex = idx_get ixs (original sp)
      in (map (\<lambda>na. (fst na, copyVertex old_nb_indices i vertex (snd na))) (fst st),
          foldl (\<lambda>newIndexes j. newIndexes[j := old_nb_indices + i]) (snd st) (indexes sp)))"

definition applySplits ::
  "nat list \<Rightarrow> nat \<Rightarrow> split list \<Rightarrow> (string \<times> BufferAttribute) list
     \<Rightarrow> (string \<times> BufferAttribute) list \<times> nat list" where
  "applySplits ixs old_nb_indices splitIndexes newAttributes =
     foldl (applySplit ixs old_nb_indices) (newAttributes, ixs)
       (zip [0 ..< length splitIndexes] splitIndexes)"

section \<open>The normal reconciler\<close>

text \<open>
  Lines 264 to 267. A store past the end of \<open>changedNormals\<close> extends the array with
  holes and a \<open>true\<close>; neither is \<open>=== false\<close>, so the loop that follows does nothing
  for them, and the model keeps the array at its first length.
\<close>

definition changedNormalsOf :: "number list \<Rightarrow> split list \<Rightarrow> bool list" where
  "changedNormalsOf oldNormals splitIndexes =
     foldl (\<lambda>changedNormals splitData. changedNormals[original splitData := True])
       (replicate (length oldNormals div 3) False) splitIndexes"

text \<open>Lines 269 to 278, on the array of the normal attribute.\<close>

definition restoreNormals :: "number list \<Rightarrow> bool list \<Rightarrow> number list \<Rightarrow> number list" where
  "restoreNormals oldNormals changedNormals arr =
     foldl (\<lambda>arr i. if changedNormals ! i = False
                     then foldl (\<lambda>arr j. arr[3 * i + j := f32_get oldNormals (Some (3 * i + j))]) arr [0 ..< 3]
                     else arr)
       arr [0 ..< length changedNormals]"

text \<open>
  Lines 262 to 281. \<open>Array(oldNormals.length / 3)\<close> raises a RangeError when the length
  is no integer; \<open>geometry.attributes.normal.array\<close> is a TypeError when the attribute
  is missing and an entry of \<open>changedNormals\<close> is false.
\<close>

definition reconcile :: "number list \<Rightarrow> split list \<Rightarrow> BufferGeometry \<Rightarrow> error + BufferGeometry" where
  "reconcile oldNormals splitIndexes g =
     (if length oldNormals mod 3 \<noteq> 0 then Inl RangeError
      else
        (let changedNormals = changedNormalsOf oldNormals splitIndexes
         in case getAttribute g ''normal'' of
              None \<Rightarrow> if list_ex (\<lambda>c. c = False) changedNormals then Inl TypeError else Inr g
            | Some n \<Rightarrow> Inr (g\<lparr>attributes := map (\<lambda>na. if fst na = ''normal''
                  then (fst na, (snd na)\<lparr>array := restoreNormals oldNormals changedNormals (array (snd na))\<rparr>)
                  else na) (attributes g)\<rparr>)))"

section \<open>modify\<close>

text \<open>The threshold \<open>Math.cos(cutOffAngle) - 0.001\<close>.\<close>

definition cutOffOf :: "number \<Rightarrow> number" where
  "cutOffOf cutOffAngle = nsub (ncos cutOffAngle) (Fin (1 / 1000))"

text \<open>
  \<open>splitIndexes\<close> as lines 188 to 203 compute it from an indexed geometry with a
  position attribute: the face normals, the corner index, then the partitioner.
\<close>

definition splitIndexesOf :: "nat list \<Rightarrow> number list \<Rightarrow> number \<Rightarrow> error + split list" where
  "splitIndexesOf ixs positions cutOffAngle =
     (case mapPositionsToIndexes positions ixs of
        Inl e \<Rightarrow> Inl e
      | Inr pointToIndexMap \<Rightarrow>
          splitAll (computeNormals ixs positions) (cutOffOf cutOffAngle) pointToIndexMap)"

text \<open>
  Lines 188 to 285, on the geometry the local variable \<open>geometry\<close> holds after line
  186. \<open>geometry.index.array\<close> and \<open>getAttribute('position').array\<close> are TypeErrors
  on \<open>null\<close> and \<open>undefined\<close>. \<open>old_nb_indices\<close> is a quotient of lengths; the model
  takes the integer quotient, which is the quotient itself when the item size of the
  position attribute is 3 (the length is a multiple of 3 once \<open>mapPositionsToIndexes\<close>
  has returned).
\<close>

definition rebuild ::
  "(nat list \<Rightarrow> number list \<Rightarrow> nat \<Rightarrow> number) \<Rightarrow> BufferGeometry \<Rightarrow> number \<Rightarrow> bool \<Rightarrow> number list option
     \<Rightarrow> error + BufferGeometry" where
  "rebuild cvn geometry cutOffAngle hadNormals oldNormals =
     (case index geometry of
        None \<Rightarrow> Inl TypeError
      | Some ixs \<Rightarrow>
     (case getAttribute geometry ''position'' of
        None \<Rightarrow> Inl TypeError
      | Some position \<Rightarrow>
     (case splitIndexesOf ixs (array position) cutOffAngle of
        Inl e \<Rightarrow> Inl e
      | Inr splitIndexes \<Rightarrow>
     (let old_nb_indices = length (array position) div itemSize position;
          new_nb_indices = old_nb_indices + length splitIndexes
      in case growAttributes new_nb_indices (attributes geometry) of
           Inl e \<Rightarrow> Inl e
         | Inr newAttributes \<Rightarrow>
     (let st = applySplits ixs old_nb_indices splitIndexes newAttributes;
          geometry' = \<lparr>isGeometry = False, index = Some (snd st), attributes = fst st\<rparr>
      in if hadNormals then
           (case oldNormals of
              None \<Rightarrow> Inr (computeVertexNormals cvn geometry')
            | Some old \<Rightarrow> reconcile old splitIndexes (computeVertexNormals cvn geometry'))
         else Inr geometry')))))"

text \<open>
  \<open>modify\<close>. The caller's geometry is the object at the reference \<open>r\<close> of the heap
  \<open>h\<close>; \<open>clone\<close> allocates a copy at the end of the heap, and \<open>deleteAttribute\<close>
  mutates the object the local variable refers to. \<open>utils\<close> is \<open>None\<close> when
  \<open>BufferGeometryUtils\<close> is undefined and \<open>Some mergeVertices\<close> otherwise. The result
  is the heap after the call, and the geometry returned or the way the call failed.
\<close>

definition modify ::
  "(BufferGeometry \<Rightarrow> BufferGeometry) option \<Rightarrow> (nat list \<Rightarrow> number list \<Rightarrow> nat \<Rightarrow> number)
     \<Rightarrow> BufferGeometry list \<Rightarrow> nat \<Rightarrow> number \<Rightarrow> bool
     \<Rightarrow> BufferGeometry list \<times> (error + BufferGeometry)" where
  "modify utils cvn h r cutOffAngle tryKeepNormals =
     (if isGeometry (h ! r) then (h, Inl LegacyGeometry)
      else
        (let hadNormals = (getAttribute (h ! r) ''normal'' \<noteq> None);
             h1 = (if hadNormals then h @ [h ! r] else h);
             r1 = (if hadNormals then length h else r);
             oldNormals = (if hadNormals \<and> tryKeepNormals \<and> index (h1 ! r1) \<noteq> None
                           then map_option array (getAttribute (h1 ! r1) ''normal'') else None);
             h2 = (if hadNormals then h1[r1 := deleteAttribute (h1 ! r1) ''normal''] else h1)
         in if index (h2 ! r1) = None then
              (case utils of
                 None \<Rightarrow> (h2, Inl NoBufferGeometryUtils)
               | Some mergeVertices \<Rightarrow>
                   (h2, rebuild cvn (mergeVertices (h2 ! r1)) cutOffAngle hadNormals oldNormals))
            else (h2, rebuild cvn (h2 ! r1) cutOffAngle hadNormals oldNormals)))"

section \<open>Notions of the specification\<close>

text \<open>
  Two face normals are compatible when the dot product of the corner \<open>x\<close>'s normal with
  the seed \<open>s\<close>'s normal is a number that is at least the threshold \<open>t\<close>.
\<close>

definition compatible :: "number list \<Rightarrow> real \<Rightarrow> nat \<Rightarrow> nat \<Rightarrow> bool" where
  "compatible normals t x s =
     (case dot (normalizeV (vec_at normals (Some x))) (normalizeV (vec_at normals (Some s))) of
        Fin d \<Rightarrow> t \<le> d
      | NaN \<Rightarrow> False)"

text \<open>
  The corners of the vertex \<open>v\<close> among the first \<open>n\<close> slots of the index buffer, in
  the order of the slots, and the entry the corner index holds for them.
\<close>

definition cornersOf :: "nat list \<Rightarrow> nat \<Rightarrow> nat \<Rightarrow> nat list" where
  "cornersOf ixs n v = filter (\<lambda>i. ixs ! i = v) [0 ..< n]"

definition entryOf :: "nat list \<Rightarrow> nat \<Rightarrow> nat \<Rightarrow> nat list option" where
  "entryOf ixs n v = (if cornersOf ixs n v = [] then None else Some (cornersOf ixs n v))"

text \<open>
  A valid mesh: an indexed buffer geometry whose position attribute has three
  components per vertex, whose index buffer has three entries per triangle, each one
  the index of a vertex, and whose attributes, of distinct names, all hold as many
  vertices as the position attribute; a normal attribute has three components per vertex.
\<close>

definition valid_mesh :: "BufferGeometry \<Rightarrow> bool" where
  "valid_mesh g =
     (\<not> isGeometry g \<and> distinct (map fst (attributes g)) \<and>
      (case index g of
         None \<Rightarrow> False
       | Some ixs \<Rightarrow>
          (case getAttribute g ''position'' of
             None \<Rightarrow> False
           | Some p \<Rightarrow>
               itemSize p = 3 \<and> length ixs mod 3 = 0 \<and> list_all (\<lambda>i. i < count p) ixs \<and>
               list_all (\<lambda>na. length (array (snd na)) = count p * itemSize (snd na)) (attributes g) \<and>
               (case getAttribute g ''normal'' of None \<Rightarrow> True | Some n \<Rightarrow> itemSize n = 3))))"

text \<open>
  The original vertex that the vertex slot \<open>v\<close> of the output descends from: itself
  when it is one of the \<open>V\<close> old slots, and for the slot appended for the entry
  \<open>v - V\<close> of \<open>splitIndexes\<close> the vertex that the \<open>original\<close> of the entry references.
\<close>

definition originOf :: "nat list \<Rightarrow> nat \<Rightarrow> split list \<Rightarrow> nat \<Rightarrow> nat" where
  "originOf ixs V splitIndexes v = (if v < V then v else ixs ! original (splitIndexes ! (v - V)))"

text \<open>
  The attribute that lines 216 to 219 build from an attribute whose array is not longer
  than the new one: the old components, then zeros.
\<close>

definition grown :: "nat \<Rightarrow> BufferAttribute \<Rightarrow> BufferAttribute" where
  "grown n a = \<lparr>array = array a @ replicate (n * itemSize a - length (array a)) (Fin 0),
                itemSize = itemSize a, normalized = normalized a\<rparr>"

section \<open>Example data\<close>

text \<open>Face normals of three corners: two along z, one along x.\<close>

definition normals0 :: "number list" where
  "normals0 = map Fin [0, 0, 1,  0, 0, 1,  1, 0, 0]"

text \<open>
  A mesh of two triangles that meet at right angles in the vertex 1: the corners of the
  first triangle reference the vertices 1, 0, 2 and those of the second the vertices
  1, 3, 4. It carries a texture coordinate and an authored normal per vertex.
\<close>

definition posA :: "number list" where
  "posA = map Fin [0, 0, 0,  0, 1, 0,  1, 0, 0,  0, 1, 1,  0, 0, 1]"

definition ixsA :: "nat list" where
  "ixsA = [Suc 0, 0, 2, Suc 0, 3, 4]"

definition uvA :: "number list" where
  "uvA = map Fin [10, 11,  20, 21,  30, 31,  40, 41,  50, 51]"

definition nrmA :: "number list" where
  "nrmA = map Fin [100, 101, 102,  110, 111, 112,  120, 121, 122,  130, 131, 132,  140, 141, 142]"

definition meshA :: BufferGeometry where
  "meshA = \<lparr>isGeometry = False, index = Some ixsA,
     attributes = [(''position'', \<lparr>array = posA, itemSize = 3, normalized = False\<rparr>),
                   (''uv'', \<lparr>array = uvA, itemSize = 2, normalized = False\<rparr>),
                   (''normal'', \<lparr>array = nrmA, itemSize = 3, normalized = False\<rparr>)]\<rparr>"

text \<open>
  The index buffer, the positions and the texture coordinates that \<open>modify\<close> returns
  for \<open>meshA\<close> at the angle 0: the corner in slot 3 has moved to the new vertex 5,
  a copy of the vertex 1.
\<close>

definition ixsA' :: "nat list" where
  "ixsA' = [Suc 0, 0, 2, 5, 3, 4]"

definition posA' :: "number list" where
  "posA' = map Fin [0, 0, 0,  0, 1, 0,  1, 0, 0,  0, 1, 1,  0, 0, 1,  0, 1, 0]"

definition uvA' :: "number list" where
  "uvA' = map Fin [10, 11,  20, 21,  30, 31,  40, 41,  50, 51,  20, 21]"

text \<open>
  The normals that \<open>modify\<close> returns for \<open>meshA\<close> at the angle 0 when it is asked to
  keep the authored normals, \<open>f k\<close> being the component \<open>k\<close> that
  \<open>computeVertexNormals\<close> computes: recomputed for the vertices 0 and 5, authored for
  the vertices 1 to 4.
\<close>

definition nrmA' :: "(nat \<Rightarrow> number) \<Rightarrow> number list" where
  "nrmA' f = [f 0, f 1, f 2] @
     map Fin [110, 111, 112,  120, 121, 122,  130, 131, 132,  140, 141, 142] @
     [f 15, f 16, f 17]"

definition meshA' :: "(nat list \<Rightarrow> number list \<Rightarrow> nat \<Rightarrow> number) \<Rightarrow> BufferGeometry" where
  "meshA' cvn = \<lparr>isGeometry = False, index = Some ixsA',
     attributes = [(''position'', \<lparr>array = posA', itemSize = 3, normalized = False\<rparr>),
                   (''uv'', \<lparr>array = uvA', itemSize = 2, normalized = False\<rparr>),
                   (''normal'', \<lparr>array = nrmA' (cvn ixsA' posA'), itemSize = 3, normalized = False\<rparr>)]\<rparr>"

text \<open>A stand-in for the arithmetic of \<open>computeVertexNormals\<close>: every component is 0.\<close>

definition cvn0 :: "nat list \<Rightarrow> number list \<Rightarrow> nat \<Rightarrow> number" where
  "cvn0 ixs positions k = Fin 0"

text \<open>
  The first triangle of \<open>meshA\<close> alone, over the same five vertices: a valid mesh in
  which no corner references the vertices 3 and 4.
\<close>

definition meshB :: BufferGeometry where
  "meshB = \<lparr>isGeometry = False, index = Some [Suc 0, 0, 2],
     attributes = [(''position'', \<lparr>array = posA, itemSize = 3, normalized = False\<rparr>)]\<rparr>"

text \<open>\<open>meshA\<close> without its index buffer.\<close>

definition meshN :: BufferGeometry where
  "meshN = meshA\<lparr>index := None\<rparr>"

text \<open>A legacy geometry: an input whose \<open>isGeometry\<close> is true.\<close>

definition meshL :: BufferGeometry where
  "meshL = meshN\<lparr>isGeometry := True\<rparr>"

text \<open>
  Two triangles over three vertices, the second of which references a vertex 3 that
  the position attribute does not hold.
\<close>

definition posC :: "number list" where
  "posC = map Fin [0, 0, 0,  0, 1, 0,  1, 0, 0]"

definition ixsC :: "nat list" where
  "ixsC = [Suc 0, 0, 2, Suc 0, 2, 3]"

definition meshC :: BufferGeometry where
  "meshC = \<lparr>isGeometry = False, index = Some ixsC,
     attributes = [(''position'', \<lparr>array = posC, itemSize = 3, normalized = False\<rparr>)]\<rparr>"





section \<open>The trial partitions and the choice among them\<close>

lemma groupStep_foldl:
  "foldl (groupStep normals cutOff s) r xs =
     \<lparr>splitGroup = splitGroup r @ filter (\<lambda>j. j \<noteq> s \<and>
         nlt (dot (normalizeV (vec_at normals (Some j))) (normalizeV (vec_at normals (Some s)))) cutOff) xs,
      currentGroup = currentGroup r @ filter (\<lambda>j. j \<noteq> s \<and>
         \<not> nlt (dot (normalizeV (vec_at normals (Some j))) (normalizeV (vec_at normals (Some s)))) cutOff) xs\<rparr>"
  by (induction xs arbitrary: r) (simp_all add: groupStep_def Let_def)

lemma edgeSplitToGroups_filter:
  "edgeSplitToGroups normals xs cutOff s =
     \<lparr>splitGroup = filter (\<lambda>j. j \<noteq> s \<and>
         nlt (dot (normalizeV (vec_at normals (Some j))) (normalizeV (vec_at normals (Some s)))) cutOff) xs,
      currentGroup = s # filter (\<lambda>j. j \<noteq> s \<and>
         \<not> nlt (dot (normalizeV (vec_at normals (Some j))) (normalizeV (vec_at normals (Some s)))) cutOff) xs\<rparr>"
  by (simp add: edgeSplitToGroups_def groupStep_foldl)

lemma foldl_longer_first_max:
  "\<exists>k \<le> length gs. foldl longer r gs = (r # gs) ! k
      \<and> (\<forall>j \<le> length gs. length (currentGroup ((r # gs) ! j)) \<le> length (currentGroup ((r # gs) ! k)))
      \<and> (\<forall>j < k. length (currentGroup ((r # gs) ! j)) < length (currentGroup ((r # gs) ! k)))"
proof (induction gs arbitrary: r)
  case Nil
  then show ?case by simp
next
  case (Cons g gs)
  show ?case
  proof (cases "length (currentGroup g) > length (currentGroup r)")
    case True
    then have l: "longer r g = g" by (simp add: longer_def)
    from Cons.IH[of g] obtain k where k: "k \<le> length gs" "foldl longer g gs = (g # gs) ! k"
      "\<forall>j \<le> length gs. length (currentGroup ((g # gs) ! j)) \<le> length (currentGroup ((g # gs) ! k))"
      "\<forall>j < k. length (currentGroup ((g # gs) ! j)) < length (currentGroup ((g # gs) ! k))"
      by blast
    from k(3) have g_le: "length (currentGroup g) \<le> length (currentGroup ((g # gs) ! k))"
      by (metis le0 nth_Cons_0)
    show ?thesis
    proof (intro exI[of _ "Suc k"] conjI allI impI)
      show "Suc k \<le> length (g # gs)" using k(1) by simp
      show "foldl longer r (g # gs) = (r # g # gs) ! Suc k" using k(2) l by simp
    next
      fix j assume "j \<le> length (g # gs)"
      then show "length (currentGroup ((r # g # gs) ! j)) \<le> length (currentGroup ((r # g # gs) ! Suc k))"
        using k(3) g_le True by (cases j) auto
    next
      fix j assume "j < Suc k"
      then show "length (currentGroup ((r # g # gs) ! j)) < length (currentGroup ((r # g # gs) ! Suc k))"
        using k(4) g_le True by (cases j) auto
    qed
  next
    case False
    then have l: "longer r g = r" by (simp add: longer_def)
    from Cons.IH[of r] obtain k where k: "k \<le> length gs" "foldl longer r gs = (r # gs) ! k"
      "\<forall>j \<le> length gs. length (currentGroup ((r # gs) ! j)) \<le> length (currentGroup ((r # gs) ! k))"
      "\<forall>j < k. length (currentGroup ((r # gs) ! j)) < length (currentGroup ((r # gs) ! k))"
      by blast
    show ?thesis
    proof (cases k)
      case 0
      show ?thesis
      proof (intro exI[of _ 0] conjI allI impI)
        show "foldl longer r (g # gs) = (r # g # gs) ! 0" using k(2) l 0 by simp
      next
        fix j assume j: "j \<le> length (g # gs)"
        show "length (currentGroup ((r # g # gs) ! j)) \<le> length (currentGroup ((r # g # gs) ! 0))"
        proof (cases j)
          case 0 then show ?thesis by simp
        next
          case (Suc j')
          show ?thesis
          proof (cases j')
            case 0 then show ?thesis using False Suc by simp
          next
            case (Suc j'')
            then show ?thesis using k(3)[rule_format, of "Suc j''"] j \<open>j = Suc j'\<close> \<open>k = 0\<close> by simp
          qed
        qed
      qed simp_all
    next
      case (Suc k')
      from k(4) Suc have r_lt: "length (currentGroup r) < length (currentGroup (gs ! k'))"
        by auto
      show ?thesis
      proof (intro exI[of _ "Suc k"] conjI allI impI)
        show "Suc k \<le> length (g # gs)" using k(1) by simp
        show "foldl longer r (g # gs) = (r # g # gs) ! Suc k" using k(2) l Suc by simp
      next
        fix j assume j: "j \<le> length (g # gs)"
        show "length (currentGroup ((r # g # gs) ! j)) \<le> length (currentGroup ((r # g # gs) ! Suc k))"
        proof (cases j)
          case 0 then show ?thesis using r_lt Suc by simp
        next
          case (Suc j')
          show ?thesis
          proof (cases j')
            case 0 then show ?thesis using False r_lt \<open>j = Suc j'\<close> \<open>k = Suc k'\<close> by simp
          next
            case (Suc j'')
            then show ?thesis using k(3)[rule_format, of "Suc j''"] j \<open>j = Suc j'\<close> \<open>k = Suc k'\<close> by simp
          qed
        qed
      next
        fix j assume j: "j < Suc k"
        show "length (currentGroup ((r # g # gs) ! j)) < length (currentGroup ((r # g # gs) ! Suc k))"
        proof (cases j)
          case 0 then show ?thesis using r_lt Suc by simp
        next
          case (Suc j')
          show ?thesis
          proof (cases j')
            case 0 then show ?thesis using False r_lt \<open>j = Suc j'\<close> \<open>k = Suc k'\<close> by simp
          next
            case (Suc j'')
            then show ?thesis using k(4)[rule_format, of "Suc j''"] j \<open>j = Suc j'\<close> \<open>k = Suc k'\<close> by simp
          qed
        qed
      qed
    qed
  qed
qed

lemma chooseGroup_first_max:
  assumes "xs \<noteq> []"
  shows "\<exists>k < length xs. chooseGroup normals xs cutOff = edgeSplitToGroups normals xs cutOff (xs ! k)
      \<and> (\<forall>j < length xs. length (currentGroup (edgeSplitToGroups normals xs cutOff (xs ! j)))
              \<le> length (currentGroup (edgeSplitToGroups normals xs cutOff (xs ! k))))
      \<and> (\<forall>j < k. length (currentGroup (edgeSplitToGroups normals xs cutOff (xs ! j)))
              < length (currentGroup (edgeSplitToGroups normals xs cutOff (xs ! k))))"
proof -
  define gs where "gs = map (edgeSplitToGroups normals xs cutOff) xs"
  have len: "length gs = length xs" and nth: "\<And>j. j < length xs \<Longrightarrow> gs ! j = edgeSplitToGroups normals xs cutOff (xs ! j)"
    by (simp_all add: gs_def)
  have ne: "0 < length xs" using assms by simp
  from foldl_longer_first_max[of gs "gs ! 0"] obtain k where k: "k \<le> length gs"
      "foldl longer (gs ! 0) gs = (gs ! 0 # gs) ! k"
      "\<forall>j \<le> length gs. length (currentGroup ((gs ! 0 # gs) ! j)) \<le> length (currentGroup ((gs ! 0 # gs) ! k))"
      "\<forall>j < k. length (currentGroup ((gs ! 0 # gs) ! j)) < length (currentGroup ((gs ! 0 # gs) ! k))"
    by blast
  have cg: "chooseGroup normals xs cutOff = (gs ! 0 # gs) ! k"
    using k(2) by (simp add: chooseGroup_def gs_def Let_def)
  show ?thesis
  proof (cases k)
    case 0
    have "\<forall>j < length xs. length (currentGroup (gs ! j)) \<le> length (currentGroup (gs ! 0))"
    proof (intro allI impI)
      fix j assume "j < length xs"
      then show "length (currentGroup (gs ! j)) \<le> length (currentGroup (gs ! 0))"
        using k(3)[rule_format, of "Suc j"] 0 len by simp
    qed
    then show ?thesis
      using cg 0 ne nth by (intro exI[of _ 0]) simp
  next
    case (Suc k')
    have k': "k' < length xs" using k(1) Suc len by simp
    have a: "\<forall>j < length xs. length (currentGroup (gs ! j)) \<le> length (currentGroup (gs ! k'))"
    proof (intro allI impI)
      fix j assume "j < length xs"
      then show "length (currentGroup (gs ! j)) \<le> length (currentGroup (gs ! k'))"
        using k(3)[rule_format, of "Suc j"] Suc len by simp
    qed
    have b: "\<forall>j < k'. length (currentGroup (gs ! j)) < length (currentGroup (gs ! k'))"
    proof (intro allI impI)
      fix j assume "j < k'"
      then show "length (currentGroup (gs ! j)) < length (currentGroup (gs ! k'))"
        using k(4)[rule_format, of "Suc j"] Suc by simp
    qed
    show ?thesis
      using cg Suc k' a b nth by (intro exI[of _ k']) simp
  qed
qed

lemma or_else_cases: "or_else orig s = s \<or> orig = Some (or_else orig s)"
  by (cases "(orig, s)" rule: or_else.cases) simp_all

lemma edgeSplit_inv:
  "sp \<in> set (edgeSplit normals xs cutOff orig) \<Longrightarrow>
     set (indexes sp) \<subseteq> set xs \<and> (original sp \<in> set xs \<or> orig = Some (original sp))"
proof (induction normals xs cutOff orig rule: edgeSplit.induct)
  case (1 normals ixs cutOff orig)
  let ?r = "chooseGroup normals ixs cutOff"
  from "1.prems" have ne: "ixs \<noteq> []"
    by (subst (asm) edgeSplit.simps) (simp split: if_splits)
  from chooseGroup_cases[OF ne, of normals cutOff] obtain s where s: "s \<in> set ixs"
      "?r = edgeSplitToGroups normals ixs cutOff s" by blast
  have cur: "set (currentGroup ?r) \<subseteq> set ixs" and spl: "set (splitGroup ?r) \<subseteq> set ixs"
    and hd: "currentGroup ?r ! 0 = s"
    using s by (auto simp: edgeSplitToGroups_filter)
  from "1.prems" consider
      (here) n where "orig = Some n" "sp = \<lparr>original = n, indexes = currentGroup ?r\<rparr>"
    | (rec) "splitGroup ?r \<noteq> []"
        "sp \<in> set (edgeSplit normals (splitGroup ?r) cutOff (Some (or_else orig (currentGroup ?r ! 0))))"
    by (subst (asm) edgeSplit.simps) (auto simp: ne split: option.splits if_splits)
  then show ?case
  proof cases
    case here
    then show ?thesis using cur by simp
  next
    case rec
    from "1.IH"[OF ne rec(1) rec(2)]
    have ih: "set (indexes sp) \<subseteq> set (splitGroup ?r)"
      "original sp \<in> set (splitGroup ?r) \<or> Some (or_else orig (currentGroup ?r ! 0)) = Some (original sp)"
      by auto
    from ih(2) have "original sp \<in> set ixs \<or> orig = Some (original sp)"
      using spl hd s(1) or_else_cases[of orig s] by auto
    with ih(1) spl show ?thesis by auto
  qed
qed

lemma pushCorner_foldl:
  "n \<le> length ixs \<Longrightarrow>
   \<exists>len. len \<ge> V \<and> foldl (pushCorner ixs) (replicate V None) [0 ..< n] = map (entryOf ixs n) [0 ..< len]
      \<and> (\<forall>i < n. ixs ! i < len) \<and> (len = V \<or> (\<exists>i < n. len = Suc (ixs ! i)))"
proof (induction n)
  case 0
  show ?case
    by (intro exI[of _ V]) (simp add: entryOf_def cornersOf_def map_replicate_const)
next
  case (Suc n)
  then obtain len where len: "len \<ge> V"
      "foldl (pushCorner ixs) (replicate V None) [0 ..< n] = map (entryOf ixs n) [0 ..< len]"
      "\<forall>i < n. ixs ! i < len" "len = V \<or> (\<exists>i < n. len = Suc (ixs ! i))"
    by auto
  define v where "v = ixs ! n"
  define len' where "len' = max len (Suc v)"
  have ext: "map (entryOf ixs n) [0 ..< len] @ replicate (Suc v - len) None = map (entryOf ixs n) [0 ..< len']"
  proof (cases "Suc v \<le> len")
    case True
    then show ?thesis by (simp add: len'_def max_def)
  next
    case False
    then have l: "len' = len + (Suc v - len)" by (simp add: len'_def)
    have "\<And>w. len \<le> w \<Longrightarrow> entryOf ixs n w = None"
      using len(3) by (auto simp: entryOf_def cornersOf_def filter_empty_conv)
    then have "map (entryOf ixs n) [len ..< len + (Suc v - len)] = replicate (Suc v - len) None"
      by (intro replicate_eqI) auto
    then show ?thesis
      unfolding l by (simp only: upt_add_eq_append[OF le0] map_append)
  qed
  have vlt: "v < len'" by (simp add: len'_def)
  have step: "pushCorner ixs (map (entryOf ixs n) [0 ..< len]) n = map (entryOf ixs (Suc n)) [0 ..< len']"
  proof (rule nth_equalityI)
    show "length (pushCorner ixs (map (entryOf ixs n) [0 ..< len]) n) = length (map (entryOf ixs (Suc n)) [0 ..< len'])"
      by (simp add: pushCorner_def Let_def v_def[symmetric] len'_def)
  next
    fix w assume "w < length (pushCorner ixs (map (entryOf ixs n) [0 ..< len]) n)"
    then have w: "w < len'" by (simp add: pushCorner_def Let_def v_def[symmetric] len'_def)
    have pc: "pushCorner ixs (map (entryOf ixs n) [0 ..< len]) n
        = (map (entryOf ixs n) [0 ..< len'])[v := Some ((case entryOf ixs n v of None \<Rightarrow> [] | Some l \<Rightarrow> l) @ [n])]"
      using vlt by (simp add: pushCorner_def Let_def v_def[symmetric] ext)
    have e1: "(case entryOf ixs n v of None \<Rightarrow> [] | Some l \<Rightarrow> l) = cornersOf ixs n v"
      by (simp add: entryOf_def)
    have e2: "cornersOf ixs (Suc n) v = cornersOf ixs n v @ [n]"
      by (simp add: cornersOf_def v_def)
    have e3: "w \<noteq> v \<Longrightarrow> cornersOf ixs (Suc n) w = cornersOf ixs n w"
      by (auto simp add: cornersOf_def v_def)
    show "pushCorner ixs (map (entryOf ixs n) [0 ..< len]) n ! w = map (entryOf ixs (Suc n)) [0 ..< len'] ! w"
    proof (cases "w = v")
      case True
      then show ?thesis using w by (simp add: pc e1 e2 entryOf_def)
    next
      case False
      then show ?thesis using w by (simp add: pc e3 entryOf_def)
    qed
  qed
  have bound: "\<forall>i < Suc n. ixs ! i < len'"
    using len(3) by (auto simp: len'_def v_def less_Suc_eq)
  have shape: "len' = V \<or> (\<exists>i < Suc n. len' = Suc (ixs ! i))"
    using len(4) by (auto simp: len'_def v_def max_def less_Suc_eq)
  show ?case
    using len(1) step bound shape by (intro exI[of _ len']) (simp add: len(2) len'_def)
qed

lemma vec_at_fin:
  assumes "NaN \<notin> set a" "3 * x + 2 < length a"
  shows "\<exists>p q r. vec_at a (Some x) = Vector3 (Fin p) (Fin q) (Fin r)"
proof -
  have "\<And>i. i < length a \<Longrightarrow> \<exists>p. a ! i = Fin p"
    using assms(1) by (metis nth_mem number.exhaust)
  then show ?thesis
    using assms(2) by (simp add: vec_at_def f32_get_def)
qed

lemma normalize_fin: "\<exists>p q r. normalizeV (Vector3 (Fin a) (Fin b) (Fin c)) = Vector3 (Fin p) (Fin q) (Fin r)"
proof -
  have "\<not> a * a + b * b + c * c < 0"
    by (simp add: add_nonneg_nonneg not_less)
  then show ?thesis
    by (simp add: normalizeV_def divideScalar_def multiplyScalar_def vlength_def)
qed

lemma dot_fin: "\<exists>d. dot (Vector3 (Fin a) (Fin b) (Fin c)) (Vector3 (Fin p) (Fin q) (Fin r)) = Fin d"
  by (simp add: dot_def)

lemma dot_normals_fin:
  assumes "NaN \<notin> set a" "3 * x + 2 < length a" "3 * y + 2 < length a"
  shows "\<exists>d. dot (normalizeV (vec_at a (Some x))) (normalizeV (vec_at a (Some y))) = Fin d"
proof -
  from vec_at_fin[OF assms(1,2)] normalize_fin obtain p q r where
    x: "normalizeV (vec_at a (Some x)) = Vector3 (Fin p) (Fin q) (Fin r)" by metis
  from vec_at_fin[OF assms(1,3)] normalize_fin obtain p' q' r' where
    y: "normalizeV (vec_at a (Some y)) = Vector3 (Fin p') (Fin q') (Fin r')" by metis
  show ?thesis unfolding x y by (rule dot_fin)
qed

lemma compatible_iff:
  assumes "NaN \<notin> set a" "3 * x + 2 < length a" "3 * y + 2 < length a"
  shows "compatible a t x y \<longleftrightarrow>
     \<not> nlt (dot (normalizeV (vec_at a (Some x))) (normalizeV (vec_at a (Some y)))) (Fin t)"
proof -
  from dot_normals_fin[OF assms] obtain d where
    "dot (normalizeV (vec_at a (Some x))) (normalizeV (vec_at a (Some y))) = Fin d" by blast
  then show ?thesis by (auto simp: compatible_def)
qed

lemma edgeSplitToGroups_compatible:
  assumes "NaN \<notin> set normals" and "\<forall>x \<in> set xs. 3 * x + 2 < length normals" and s: "s \<in> set xs"
  shows "edgeSplitToGroups normals xs (Fin t) s =
            \<lparr>splitGroup = filter (\<lambda>x. x \<noteq> s \<and> \<not> compatible normals t x s) xs,
             currentGroup = s # filter (\<lambda>x. x \<noteq> s \<and> compatible normals t x s) xs\<rparr>"
proof -
  have "\<And>x. x \<in> set xs \<Longrightarrow> compatible normals t x s \<longleftrightarrow>
     \<not> nlt (dot (normalizeV (vec_at normals (Some x))) (normalizeV (vec_at normals (Some s)))) (Fin t)"
    using assms by (intro compatible_iff) auto
  then have "filter (\<lambda>x. x \<noteq> s \<and> \<not> compatible normals t x s) xs
      = filter (\<lambda>j. j \<noteq> s \<and> nlt (dot (normalizeV (vec_at normals (Some j))) (normalizeV (vec_at normals (Some s)))) (Fin t)) xs"
    and "filter (\<lambda>x. x \<noteq> s \<and> compatible normals t x s) xs
      = filter (\<lambda>j. j \<noteq> s \<and> \<not> nlt (dot (normalizeV (vec_at normals (Some j))) (normalizeV (vec_at normals (Some s)))) (Fin t)) xs"
    by (auto intro!: filter_cong)
  then show ?thesis
    by (simp add: edgeSplitToGroups_filter)
qed

text \<open>
  Claim C4. On a non-empty corner list whose face normals hold no NaN, every corner is
  tried as a seed; the trial partition of a seed has as \<open>currentGroup\<close> the seed followed
  by the other corners compatible with it, in the order of the list, and as
  \<open>splitGroup\<close> the remaining corners; the partition chosen is the trial of the first
  corner of the list whose \<open>currentGroup\<close> is of the greatest length: no trial is longer,
  and every trial before it is strictly shorter. \<open>edgeSplit\<close> emits that partition: it
  pushes the chosen \<open>currentGroup\<close> on \<open>splitIndexes\<close>, under the \<open>original\<close> it was
  called with (the first group of a vertex, for which \<open>original\<close> is \<open>null\<close>, is not
  pushed), and goes on with the chosen \<open>splitGroup\<close> when it is not empty.
\<close>

theorem partitioner_emits_first_largest:
  assumes "xs \<noteq> []" and "NaN \<notin> set normals" and "\<forall>x \<in> set xs. 3 * x + 2 < length normals"
  shows "(\<forall>s \<in> set xs. edgeSplitToGroups normals xs (Fin t) s =
            \<lparr>splitGroup = filter (\<lambda>x. x \<noteq> s \<and> \<not> compatible normals t x s) xs,
             currentGroup = s # filter (\<lambda>x. x \<noteq> s \<and> compatible normals t x s) xs\<rparr>)
       \<and> (\<exists>k < length xs.
            chooseGroup normals xs (Fin t) = edgeSplitToGroups normals xs (Fin t) (xs ! k)
          \<and> (\<forall>j < length xs. length (currentGroup (edgeSplitToGroups normals xs (Fin t) (xs ! j)))
                 \<le> length (currentGroup (edgeSplitToGroups normals xs (Fin t) (xs ! k))))
          \<and> (\<forall>j < k. length (currentGroup (edgeSplitToGroups normals xs (Fin t) (xs ! j)))
                 < length (currentGroup (edgeSplitToGroups normals xs (Fin t) (xs ! k))))
          \<and> edgeSplit normals xs (Fin t) orig =
               (case orig of
                  None \<Rightarrow> []
                | Some n \<Rightarrow> [\<lparr>original = n,
                     indexes = xs ! k # filter (\<lambda>x. x \<noteq> xs ! k \<and> compatible normals t x (xs ! k)) xs\<rparr>])
               @ (if filter (\<lambda>x. x \<noteq> xs ! k \<and> \<not> compatible normals t x (xs ! k)) xs = [] then []
                  else edgeSplit normals (filter (\<lambda>x. x \<noteq> xs ! k \<and> \<not> compatible normals t x (xs ! k)) xs)
                         (Fin t) (Some (or_else orig (xs ! k)))))"
proof (rule conjI)
  show "\<forall>s \<in> set xs. edgeSplitToGroups normals xs (Fin t) s =
            \<lparr>splitGroup = filter (\<lambda>x. x \<noteq> s \<and> \<not> compatible normals t x s) xs,
             currentGroup = s # filter (\<lambda>x. x \<noteq> s \<and> compatible normals t x s) xs\<rparr>"
    using edgeSplitToGroups_compatible[OF assms(2,3)] by blast
next
  from chooseGroup_first_max[OF assms(1), of normals "Fin t"] obtain k where k: "k < length xs"
    and chosen: "chooseGroup normals xs (Fin t) = edgeSplitToGroups normals xs (Fin t) (xs ! k)"
    and largest: "\<forall>j < length xs. length (currentGroup (edgeSplitToGroups normals xs (Fin t) (xs ! j)))
                 \<le> length (currentGroup (edgeSplitToGroups normals xs (Fin t) (xs ! k)))"
    and first: "\<forall>j < k. length (currentGroup (edgeSplitToGroups normals xs (Fin t) (xs ! j)))
                 < length (currentGroup (edgeSplitToGroups normals xs (Fin t) (xs ! k)))"
    by blast
  from k have "xs ! k \<in> set xs" by simp
  from edgeSplitToGroups_compatible[OF assms(2,3) this, of t] chosen
  have c: "chooseGroup normals xs (Fin t) =
            \<lparr>splitGroup = filter (\<lambda>x. x \<noteq> xs ! k \<and> \<not> compatible normals t x (xs ! k)) xs,
             currentGroup = xs ! k # filter (\<lambda>x. x \<noteq> xs ! k \<and> compatible normals t x (xs ! k)) xs\<rparr>"
    by simp
  have emit: "edgeSplit normals xs (Fin t) orig =
               (case orig of
                  None \<Rightarrow> []
                | Some n \<Rightarrow> [\<lparr>original = n,
                     indexes = xs ! k # filter (\<lambda>x. x \<noteq> xs ! k \<and> compatible normals t x (xs ! k)) xs\<rparr>])
               @ (if filter (\<lambda>x. x \<noteq> xs ! k \<and> \<not> compatible normals t x (xs ! k)) xs = [] then []
                  else edgeSplit normals (filter (\<lambda>x. x \<noteq> xs ! k \<and> \<not> compatible normals t x (xs ! k)) xs)
                         (Fin t) (Some (or_else orig (xs ! k))))"
    using assms(1) by (subst edgeSplit.simps) (simp add: c split: option.splits)
  from k chosen largest first emit
  show "\<exists>k < length xs.
            chooseGroup normals xs (Fin t) = edgeSplitToGroups normals xs (Fin t) (xs ! k)
          \<and> (\<forall>j < length xs. length (currentGroup (edgeSplitToGroups normals xs (Fin t) (xs ! j)))
                 \<le> length (currentGroup (edgeSplitToGroups normals xs (Fin t) (xs ! k))))
          \<and> (\<forall>j < k. length (currentGroup (edgeSplitToGroups normals xs (Fin t) (xs ! j)))
                 < length (currentGroup (edgeSplitToGroups normals xs (Fin t) (xs ! k))))
          \<and> edgeSplit normals xs (Fin t) orig =
               (case orig of
                  None \<Rightarrow> []
                | Some n \<Rightarrow> [\<lparr>original = n,
                     indexes = xs ! k # filter (\<lambda>x. x \<noteq> xs ! k \<and> compatible normals t x (xs ! k)) xs\<rparr>])
               @ (if filter (\<lambda>x. x \<noteq> xs ! k \<and> \<not> compatible normals t x (xs ! k)) xs = [] then []
                  else edgeSplit normals (filter (\<lambda>x. x \<noteq> xs ! k \<and> \<not> compatible normals t x (xs ! k)) xs)
                         (Fin t) (Some (or_else orig (xs ! k))))"
    by (intro exI[of _ k] conjI)
qed

lemma normalize_z [simp]: "normalizeV (Vector3 (Fin 0) (Fin 0) (Fin 1)) = Vector3 (Fin 0) (Fin 0) (Fin 1)"
  by (simp add: normalizeV_def divideScalar_def multiplyScalar_def vlength_def)

lemma normalize_x [simp]: "normalizeV (Vector3 (Fin 1) (Fin 0) (Fin 0)) = Vector3 (Fin 1) (Fin 0) (Fin 0)"
  by (simp add: normalizeV_def divideScalar_def multiplyScalar_def vlength_def)

lemma normals0_vec:
  "vec_at normals0 (Some 0) = Vector3 (Fin 0) (Fin 0) (Fin 1)"
  "vec_at normals0 (Some (Suc 0)) = Vector3 (Fin 0) (Fin 0) (Fin 1)"
  "vec_at normals0 (Some 2) = Vector3 (Fin 1) (Fin 0) (Fin 0)"
  by (simp_all add: normals0_def vec_at_def f32_get_def)

lemma normals0_compatible:
  "compatible normals0 (1/2) 0 0" "compatible normals0 (1/2) (Suc 0) 0" "\<not> compatible normals0 (1/2) 2 0"
  "compatible normals0 (1/2) 0 (Suc 0)" "compatible normals0 (1/2) (Suc 0) (Suc 0)" "\<not> compatible normals0 (1/2) 2 (Suc 0)"
  "\<not> compatible normals0 (1/2) 0 2" "\<not> compatible normals0 (1/2) (Suc 0) 2" "compatible normals0 (1/2) 2 2"
  by (simp_all add: compatible_def normals0_vec dot_def)

section \<open>Termination of the recursive grouping\<close>

lemma edgeSplit_length:
  "xs \<noteq> [] \<Longrightarrow> length (edgeSplit normals xs cutOff orig) + (if orig = None then 1 else 0) \<le> length xs"
proof (induction normals xs cutOff orig rule: edgeSplit.induct)
  case (1 normals ixs cutOff orig)
  let ?r = "chooseGroup normals ixs cutOff"
  have ne: "ixs \<noteq> []" by (rule "1.prems")
  have lt: "length (splitGroup ?r) < length ixs" by (rule chooseGroup_shorter[OF ne])
  show ?case
  proof (cases "splitGroup ?r = []")
    case True
    then show ?thesis using ne
      by (subst edgeSplit.simps) (auto split: option.splits simp: Suc_le_eq)
  next
    case False
    from "1.IH"[OF ne False False]
    have "length (edgeSplit normals (splitGroup ?r) cutOff (Some (or_else orig (currentGroup ?r ! 0))))
        \<le> length (splitGroup ?r)" by simp
    then show ?thesis using ne False lt
      by (subst edgeSplit.simps) (auto split: option.splits)
  qed
qed

lemma filter_neq_length:
  "distinct xs \<Longrightarrow> s \<in> set xs \<Longrightarrow> length (filter (\<lambda>j. j \<noteq> s) xs) = length xs - 1"
proof (induction xs)
  case Nil
  then show ?case by simp
next
  case (Cons x xs)
  show ?case
  proof (cases "x = s")
    case True
    with Cons.prems have "filter (\<lambda>j. j \<noteq> s) xs = xs"
      by (auto simp: filter_id_conv)
    with True show ?thesis by simp
  next
    case False
    with Cons have "length (filter (\<lambda>j. j \<noteq> s) xs) = length xs - 1" and "0 < length xs"
      by auto
    with False show ?thesis by simp
  qed
qed

lemma trial_lengths:
  assumes "distinct xs" "s \<in> set xs"
  shows "length (splitGroup (edgeSplitToGroups normals xs cutOff s))
       + length (currentGroup (edgeSplitToGroups normals xs cutOff s)) = length xs"
proof -
  define P where "P = (\<lambda>j. nlt (dot (normalizeV (vec_at normals (Some j))) (normalizeV (vec_at normals (Some s)))) cutOff)"
  define ys where "ys = filter (\<lambda>j. j \<noteq> s) xs"
  have a: "filter (\<lambda>j. j \<noteq> s \<and> P j) xs = filter P ys"
    and b: "filter (\<lambda>j. j \<noteq> s \<and> \<not> P j) xs = filter (\<lambda>j. \<not> P j) ys"
    by (simp_all add: ys_def)
  have c: "length (filter P ys) + length (filter (\<lambda>j. \<not> P j) ys) = length ys"
    by (rule sum_length_filter_compl)
  have d: "length ys = length xs - 1"
    using assms by (simp add: ys_def filter_neq_length)
  have e: "0 < length xs" using assms(2) by (cases xs) auto
  have "edgeSplitToGroups normals xs cutOff s =
      \<lparr>splitGroup = filter (\<lambda>j. j \<noteq> s \<and> P j) xs, currentGroup = s # filter (\<lambda>j. j \<noteq> s \<and> \<not> P j) xs\<rparr>"
    unfolding P_def by (rule edgeSplitToGroups_filter)
  then show ?thesis
    using c d e by (simp only: a b groupResult.simps list.size length_Cons)
qed

text \<open>
  Claim C8. \<open>edgeSplit\<close> is a total function: its recursion is accepted with the
  length of the corner list as measure. On a non-empty corner list the chosen
  \<open>currentGroup\<close> is non-empty and the \<open>splitGroup\<close> handed to the recursive call is
  strictly shorter than the list (on a list without repetition the two lengths add up to
  the length of the list); the whole recursion forms at most one group per corner: the
  first group, which is not pushed, and at most \<open>length xs - 1\<close> pushed ones.
\<close>

theorem edgeSplit_recursion_shrinks:
  assumes "xs \<noteq> []"
  shows "currentGroup (chooseGroup normals xs cutOff) \<noteq> []
       \<and> length (splitGroup (chooseGroup normals xs cutOff)) < length xs
       \<and> (distinct xs \<longrightarrow> length (splitGroup (chooseGroup normals xs cutOff))
              + length (currentGroup (chooseGroup normals xs cutOff)) = length xs)
       \<and> Suc (length (edgeSplit normals xs cutOff None)) \<le> length xs
       \<and> length (edgeSplit normals xs cutOff (Some n)) \<le> length xs"
proof -
  from chooseGroup_cases[OF assms, of normals cutOff] obtain s where s: "s \<in> set xs"
      "chooseGroup normals xs cutOff = edgeSplitToGroups normals xs cutOff s" by blast
  have "currentGroup (chooseGroup normals xs cutOff) \<noteq> []"
    by (simp add: s(2) edgeSplitToGroups_filter)
  moreover have "length (splitGroup (chooseGroup normals xs cutOff)) < length xs"
    by (rule chooseGroup_shorter[OF assms])
  moreover have "distinct xs \<longrightarrow> length (splitGroup (chooseGroup normals xs cutOff))
              + length (currentGroup (chooseGroup normals xs cutOff)) = length xs"
    using s trial_lengths by simp
  moreover have "Suc (length (edgeSplit normals xs cutOff None)) \<le> length xs"
    using edgeSplit_length[OF assms, of normals cutOff None] by simp
  moreover have "length (edgeSplit normals xs cutOff (Some n)) \<le> length xs"
    using edgeSplit_length[OF assms, of normals cutOff "Some n"] by simp
  ultimately show ?thesis by blast
qed

lemma chooseGroup_normals0:
  "chooseGroup normals0 [0, Suc 0, 2] (Fin (1/2)) = \<lparr>splitGroup = [2], currentGroup = [0, Suc 0]\<rparr>"
  by (simp add: chooseGroup_def longer_def edgeSplitToGroups_filter normals0_vec dot_def)

lemma edgeSplit_normals0:
  "edgeSplit normals0 [0, Suc 0, 2] (Fin (1/2)) None = [\<lparr>original = 0, indexes = [2]\<rparr>]"
  apply (subst edgeSplit.simps)
  apply (simp add: chooseGroup_normals0)
  apply (subst edgeSplit.simps)
  apply (simp add: chooseGroup_def longer_def edgeSplitToGroups_filter)
  done

theorem edgeSplit_recursion_shrinks_witness:
  "chooseGroup normals0 [0, Suc 0, 2] (Fin (1/2)) = \<lparr>splitGroup = [2], currentGroup = [0, Suc 0]\<rparr>
   \<and> length [2::nat] < length [0, Suc 0, 2]
   \<and> edgeSplit normals0 [0, Suc 0, 2] (Fin (1/2)) None = [\<lparr>original = 0, indexes = [2]\<rparr>]
   \<and> Suc (length (edgeSplit normals0 [0, Suc 0, 2] (Fin (1/2)) None)) \<le> length [0, Suc 0, 2]"
proof -
  have h: "[0, Suc 0, 2] \<noteq> []" by simp
  from edgeSplit_recursion_shrinks[OF h, of normals0 "Fin (1/2)" 0]
  have "Suc (length (edgeSplit normals0 [0, Suc 0, 2] (Fin (1/2)) None)) \<le> length [0, Suc 0, 2]"
    by blast
  then show ?thesis
    by (simp add: chooseGroup_normals0 edgeSplit_normals0)
qed

section \<open>The splits of a mesh\<close>

lemma splitAll_Inr:
  "splitAll normals cutOff m = Inr sps \<Longrightarrow>
     None \<notin> set m \<and> sps = concat (map (\<lambda>e. edgeSplit normals (the e) cutOff None) m)"
proof (induction m arbitrary: sps)
  case Nil
  then show ?case by simp
next
  case (Cons e m)
  then show ?case
    by (cases e) (auto split: sum.splits)
qed

lemma splitAll_no_hole:
  "None \<notin> set m \<Longrightarrow> \<exists>sps. splitAll normals cutOff m = Inr sps"
proof (induction m)
  case Nil
  then show ?case by simp
next
  case (Cons e m)
  then show ?case by (cases e) auto
qed

lemma splitAll_hole:
  "None \<in> set m \<Longrightarrow> splitAll normals cutOff m = Inl TypeError"
proof (induction m)
  case Nil
  then show ?case by simp
next
  case (Cons e m)
  then show ?case by (cases e) (auto split: sum.splits)
qed

lemma mapPositionsToIndexes_Inr:
  assumes "mapPositionsToIndexes positions ixs = Inr m"
  shows "length positions mod 3 = 0 \<and> (\<exists>len \<ge> length positions div 3.
           m = map (entryOf ixs (length ixs)) [0 ..< len]
         \<and> (\<forall>i < length ixs. ixs ! i < len)
         \<and> (len = length positions div 3 \<or> (\<exists>i < length ixs. len = Suc (ixs ! i))))"
proof -
  from assms have m: "length positions mod 3 = 0"
    "m = foldl (pushCorner ixs) (replicate (length positions div 3) None) [0 ..< length ixs]"
    by (auto simp: mapPositionsToIndexes_def split: if_splits)
  from pushCorner_foldl[of "length ixs" ixs "length positions div 3"] m show ?thesis
    by auto
qed

lemma cornersOf_set: "set (cornersOf ixs n v) = {i. i < n \<and> ixs ! i = v}"
  by (auto simp: cornersOf_def)

text \<open>
  Every entry pushed on \<open>splitIndexes\<close> names a slot of the index buffer as its
  \<open>original\<close>, and groups slots that hold the same vertex as that slot.
\<close>

lemma splitIndexesOf_Inr:
  assumes "splitIndexesOf ixs positions cutOffAngle = Inr sps"
  shows "\<exists>m. mapPositionsToIndexes positions ixs = Inr m
           \<and> splitAll (computeNormals ixs positions) (cutOffOf cutOffAngle) m = Inr sps"
proof (cases "mapPositionsToIndexes positions ixs")
  case (Inl e)
  with assms show ?thesis by (simp add: splitIndexesOf_def)
next
  case (Inr m)
  with assms show ?thesis by (simp add: splitIndexesOf_def)
qed

lemma splitIndexesOf_inv:
  assumes "splitIndexesOf ixs positions cutOffAngle = Inr sps" and "sp \<in> set sps"
  shows "original sp < length ixs
       \<and> (\<forall>c \<in> set (indexes sp). c < length ixs \<and> ixs ! c = ixs ! original sp)"
proof -
  from splitIndexesOf_Inr[OF assms(1)] obtain m where m: "mapPositionsToIndexes positions ixs = Inr m"
      "splitAll (computeNormals ixs positions) (cutOffOf cutOffAngle) m = Inr sps"
    by blast
  from mapPositionsToIndexes_Inr[OF m(1)] obtain len where
    len: "m = map (entryOf ixs (length ixs)) [0 ..< len]" by blast
  from splitAll_Inr[OF m(2)] have nn: "None \<notin> set m"
    and sps: "sps = concat (map (\<lambda>e. edgeSplit (computeNormals ixs positions) (the e) (cutOffOf cutOffAngle) None) m)"
    by blast+
  from assms(2) obtain e where e: "e \<in> set m"
      "sp \<in> set (edgeSplit (computeNormals ixs positions) (the e) (cutOffOf cutOffAngle) None)"
    unfolding sps set_concat set_map by blast
  from e(1) len obtain v where "e = entryOf ixs (length ixs) v"
    by auto
  with e(1) nn have v: "e = Some (cornersOf ixs (length ixs) v)"
    by (cases "cornersOf ixs (length ixs) v = []") (auto simp: entryOf_def)
  from edgeSplit_inv[OF e(2)] v
  have "set (indexes sp) \<subseteq> set (cornersOf ixs (length ixs) v)"
    "original sp \<in> set (cornersOf ixs (length ixs) v)"
    by simp_all
  then show ?thesis
    unfolding cornersOf_set by blast
qed

section \<open>The rewritten index buffer\<close>

lemma write_group:
  "length (foldl (\<lambda>newIndexes j. newIndexes[j := x]) ni js) = length ni
   \<and> (\<forall>c < length ni. foldl (\<lambda>newIndexes j. newIndexes[j := x]) ni js ! c = (if c \<in> set js then x else ni ! c))"
proof (induction js arbitrary: ni)
  case Nil
  then show ?case by simp
next
  case (Cons j js)
  show ?case
    using Cons.IH[of "ni[j := x]"] by (auto simp: nth_list_update)
qed

lemma applySplit_foldl_snd:
  "snd (foldl (applySplit ixs V) st isps)
     = foldl (\<lambda>ni isp. foldl (\<lambda>newIndexes j. newIndexes[j := V + fst isp]) ni (indexes (snd isp))) (snd st) isps"
  by (induction isps arbitrary: st) (simp_all add: applySplit_def Let_def)

lemma applySplit_foldl_fst:
  "fst (foldl (applySplit ixs V) st isps)
     = map (\<lambda>na. (fst na, foldl (\<lambda>a isp. copyVertex V (fst isp) (idx_get ixs (original (snd isp))) a) (snd na) isps)) (fst st)"
  by (induction isps arbitrary: st) (simp_all add: applySplit_def Let_def comp_def)

lemma write_groups:
  "length (foldl (\<lambda>ni isp. foldl (\<lambda>newIndexes j. newIndexes[j := V + fst isp]) ni (indexes (snd isp))) ni isps) = length ni
   \<and> (\<forall>c < length ni.
        (foldl (\<lambda>ni isp. foldl (\<lambda>newIndexes j. newIndexes[j := V + fst isp]) ni (indexes (snd isp))) ni isps ! c = ni ! c
           \<and> (\<forall>isp \<in> set isps. c \<notin> set (indexes (snd isp))))
      \<or> (\<exists>isp \<in> set isps. c \<in> set (indexes (snd isp))
           \<and> foldl (\<lambda>ni isp. foldl (\<lambda>newIndexes j. newIndexes[j := V + fst isp]) ni (indexes (snd isp))) ni isps ! c = V + fst isp))"
proof (induction isps arbitrary: ni)
  case Nil
  then show ?case by simp
next
  case (Cons isp isps)
  define ni' where "ni' = foldl (\<lambda>newIndexes j. newIndexes[j := V + fst isp]) ni (indexes (snd isp))"
  define W where "W = foldl (\<lambda>ni isp. foldl (\<lambda>newIndexes j. newIndexes[j := V + fst isp]) ni (indexes (snd isp))) ni' isps"
  have w: "length ni' = length ni"
    "\<And>c. c < length ni \<Longrightarrow> ni' ! c = (if c \<in> set (indexes (snd isp)) then V + fst isp else ni ! c)"
    using write_group[of "V + fst isp" ni "indexes (snd isp)"] by (simp_all add: ni'_def)
  from Cons.IH[of ni'] have ih: "length W = length ni'"
    "\<And>c. c < length ni' \<Longrightarrow> (W ! c = ni' ! c \<and> (\<forall>isp \<in> set isps. c \<notin> set (indexes (snd isp))))
        \<or> (\<exists>isp \<in> set isps. c \<in> set (indexes (snd isp)) \<and> W ! c = V + fst isp)"
    by (simp_all add: W_def)
  have eq: "foldl (\<lambda>ni isp. foldl (\<lambda>newIndexes j. newIndexes[j := V + fst isp]) ni (indexes (snd isp))) ni (isp # isps) = W"
    by (simp add: W_def ni'_def)
  show ?case
    unfolding eq
  proof (intro conjI allI impI)
    show "length W = length ni" using ih(1) w(1) by simp
  next
    fix c assume c: "c < length ni"
    from ih(2)[of c] c w(1) consider
        (a) "W ! c = ni' ! c" "\<forall>isp \<in> set isps. c \<notin> set (indexes (snd isp))"
      | (b) "\<exists>isp \<in> set isps. c \<in> set (indexes (snd isp)) \<and> W ! c = V + fst isp"
      by auto
    then show "(W ! c = ni ! c \<and> (\<forall>isp \<in> set (isp # isps). c \<notin> set (indexes (snd isp))))
        \<or> (\<exists>isp \<in> set (isp # isps). c \<in> set (indexes (snd isp)) \<and> W ! c = V + fst isp)"
    proof cases
      case a
      show ?thesis
      proof (cases "c \<in> set (indexes (snd isp))")
        case True
        with a w(2)[OF c] show ?thesis by simp
      next
        case False
        with a w(2)[OF c] show ?thesis by simp
      qed
    next
      case b
      then show ?thesis by auto
    qed
  qed
qed

lemma in_set_zip_upt:
  "isp \<in> set (zip [0 ..< length sps] sps) \<Longrightarrow> fst isp < length sps \<and> snd isp = sps ! fst isp"
  by (auto simp: set_zip)

text \<open>
  The index buffer after the loop: of the same length; a slot holds its old vertex, or
  the new vertex of an entry of \<open>splitIndexes\<close> whose group it belongs to.
\<close>

lemma applySplits_index:
  "length (snd (applySplits ixs V sps attrs)) = length ixs"
  "c < length ixs \<Longrightarrow>
     (snd (applySplits ixs V sps attrs) ! c = ixs ! c \<and> (\<forall>k < length sps. c \<notin> set (indexes (sps ! k))))
   \<or> (\<exists>k < length sps. c \<in> set (indexes (sps ! k)) \<and> snd (applySplits ixs V sps attrs) ! c = V + k)"
proof -
  let ?isps = "zip [0 ..< length sps] sps"
  note wg = write_groups[of V ixs ?isps]
  show "length (snd (applySplits ixs V sps attrs)) = length ixs"
    using wg by (simp add: applySplits_def applySplit_foldl_snd)
  assume c: "c < length ixs"
  let ?W = "snd (applySplits ixs V sps attrs)"
  have W: "?W = foldl (\<lambda>ni isp. foldl (\<lambda>newIndexes j. newIndexes[j := V + fst isp]) ni (indexes (snd isp))) ixs ?isps"
    by (simp add: applySplits_def applySplit_foldl_snd)
  from wg c consider
      (a) "?W ! c = ixs ! c" "\<forall>isp \<in> set ?isps. c \<notin> set (indexes (snd isp))"
    | (b) isp where "isp \<in> set ?isps" "c \<in> set (indexes (snd isp))" "?W ! c = V + fst isp"
    unfolding W by blast
  then show "(?W ! c = ixs ! c \<and> (\<forall>k < length sps. c \<notin> set (indexes (sps ! k))))
   \<or> (\<exists>k < length sps. c \<in> set (indexes (sps ! k)) \<and> ?W ! c = V + k)"
  proof cases
    case a
    have "\<forall>k < length sps. c \<notin> set (indexes (sps ! k))"
    proof (intro allI impI)
      fix k assume k: "k < length sps"
      then have "(k, sps ! k) \<in> set ?isps"
        by (auto simp: set_zip intro!: exI[of _ k])
      with a(2) show "c \<notin> set (indexes (sps ! k))" by fastforce
    qed
    with a(1) show ?thesis by simp
  next
    case b
    from in_set_zip_upt[OF b(1)] b(2,3) show ?thesis by auto
  qed
qed

section \<open>The extended attribute buffers\<close>

lemma copy_loop:
  fixes arr :: "number list"
  assumes "m \<le> sz"
  shows "length (foldl (\<lambda>arr j. arr[b + j := f32_get arr (map_option (\<lambda>v. v * sz + j) vo)]) arr [0 ..< m]) = length arr
     \<and> (\<forall>p < length arr. p < b \<or> b + m \<le> p \<longrightarrow>
           foldl (\<lambda>arr j. arr[b + j := f32_get arr (map_option (\<lambda>v. v * sz + j) vo)]) arr [0 ..< m] ! p = arr ! p)
     \<and> (\<forall>w j. vo = Some w \<and> Suc w * sz \<le> b \<and> j < m \<and> b + j < length arr \<longrightarrow>
           foldl (\<lambda>arr j. arr[b + j := f32_get arr (map_option (\<lambda>v. v * sz + j) vo)]) arr [0 ..< m] ! (b + j) = arr ! (w * sz + j))"
  using assms
proof (induction m)
  case 0
  then show ?case by simp
next
  case (Suc m)
  define R where "R = foldl (\<lambda>arr j. arr[b + j := f32_get arr (map_option (\<lambda>v. v * sz + j) vo)]) arr [0 ..< m]"
  from Suc.prems have m: "m < sz" by simp
  then have "m \<le> sz" by simp
  from Suc.IH[OF this] have IH: "length R = length arr
     \<and> (\<forall>p < length arr. p < b \<or> b + m \<le> p \<longrightarrow> R ! p = arr ! p)
     \<and> (\<forall>w j. vo = Some w \<and> Suc w * sz \<le> b \<and> j < m \<and> b + j < length arr \<longrightarrow> R ! (b + j) = arr ! (w * sz + j))"
    unfolding R_def .
  from IH have ih: "length R = length arr"
    "\<And>p. p < length arr \<Longrightarrow> p < b \<or> b + m \<le> p \<Longrightarrow> R ! p = arr ! p"
    "\<And>w j. vo = Some w \<Longrightarrow> Suc w * sz \<le> b \<Longrightarrow> j < m \<Longrightarrow> b + j < length arr \<Longrightarrow> R ! (b + j) = arr ! (w * sz + j)"
    by blast+
  have step: "foldl (\<lambda>arr j. arr[b + j := f32_get arr (map_option (\<lambda>v. v * sz + j) vo)]) arr [0 ..< Suc m]
      = R[b + m := f32_get R (map_option (\<lambda>v. v * sz + m) vo)]"
    by (simp add: R_def)
  show ?case
    unfolding step
  proof (intro conjI allI impI)
    show "length (R[b + m := f32_get R (map_option (\<lambda>v. v * sz + m) vo)]) = length arr"
      by (simp add: ih(1))
  next
    fix p assume "p < length arr" "p < b \<or> b + Suc m \<le> p"
    then show "R[b + m := f32_get R (map_option (\<lambda>v. v * sz + m) vo)] ! p = arr ! p"
      using ih(2)[of p] by (auto simp: nth_list_update ih(1))
  next
    fix w j assume a: "vo = Some w \<and> Suc w * sz \<le> b \<and> j < Suc m \<and> b + j < length arr"
    show "R[b + m := f32_get R (map_option (\<lambda>v. v * sz + m) vo)] ! (b + j) = arr ! (w * sz + j)"
    proof (cases "j = m")
      case False
      with a have "j < m" by simp
      with a ih(3)[of w j] False show ?thesis by (simp add: nth_list_update ih(1))
    next
      case True
      have src: "w * sz + m < b" using a m by simp
      with a True have inr: "w * sz + m < length arr" by simp
      have "R ! (w * sz + m) = arr ! (w * sz + m)"
        using ih(2)[OF inr] src by simp
      with a True inr show ?thesis
        by (simp add: nth_list_update ih(1) f32_get_def)
    qed
  qed
qed

lemma copyVertex_props:
  "itemSize (copyVertex V i vo a) = itemSize a"
  "normalized (copyVertex V i vo a) = normalized a"
  "length (array (copyVertex V i vo a)) = length (array a)"
  "p < length (array a) \<Longrightarrow> p < (V + i) * itemSize a \<or> (V + Suc i) * itemSize a \<le> p
     \<Longrightarrow> array (copyVertex V i vo a) ! p = array a ! p"
  "w < V \<Longrightarrow> j < itemSize a \<Longrightarrow> (V + i) * itemSize a + j < length (array a)
     \<Longrightarrow> array (copyVertex V i (Some w) a) ! ((V + i) * itemSize a + j) = array a ! (w * itemSize a + j)"
proof -
  define sz where "sz = itemSize a"
  define b where "b = (V + i) * sz"
  define L where "L = (\<lambda>vo. foldl (\<lambda>arr j. arr[b + j := f32_get arr (map_option (\<lambda>v. v * sz + j) vo)]) (array a) [0 ..< sz])"
  have arr: "array (copyVertex V i vo a) = L vo" for vo
    by (simp add: copyVertex_def L_def b_def sz_def)
  have cl: "length (L vo) = length (array a)
     \<and> (\<forall>p < length (array a). p < b \<or> b + sz \<le> p \<longrightarrow> L vo ! p = array a ! p)
     \<and> (\<forall>w j. vo = Some w \<and> Suc w * sz \<le> b \<and> j < sz \<and> b + j < length (array a) \<longrightarrow>
           L vo ! (b + j) = array a ! (w * sz + j))" for vo
    unfolding L_def by (rule copy_loop[OF le_refl])
  show "itemSize (copyVertex V i vo a) = itemSize a" "normalized (copyVertex V i vo a) = normalized a"
    by (simp_all add: copyVertex_def)
  show "length (array (copyVertex V i vo a)) = length (array a)"
    unfolding arr using cl[of vo] by blast
  have bs: "b + sz = (V + Suc i) * sz" by (simp add: b_def)
  show "array (copyVertex V i vo a) ! p = array a ! p"
    if "p < length (array a)" "p < (V + i) * itemSize a \<or> (V + Suc i) * itemSize a \<le> p"
  proof -
    from that(2) have "p < b \<or> b + sz \<le> p" by (auto simp: b_def sz_def add.commute)
    with cl[of vo] that(1) show ?thesis unfolding arr by blast
  qed
  show "array (copyVertex V i (Some w) a) ! ((V + i) * itemSize a + j) = array a ! (w * itemSize a + j)"
    if "w < V" "j < itemSize a" "(V + i) * itemSize a + j < length (array a)"
  proof -
    from that(1) have "Suc w \<le> V + i" by simp
    then have "Suc w * sz \<le> b" unfolding b_def by (rule mult_le_mono1)
    with cl[of "Some w"] that show ?thesis
      unfolding arr b_def sz_def[symmetric] by blast
  qed
qed

lemma zip_upt_snoc:
  "zip [0 ..< length (sps @ [sp])] (sps @ [sp]) = zip [0 ..< length sps] sps @ [(length sps, sp)]"
  by simp

text \<open>
  An attribute after the loop: the slots of the old vertices are left as they were,
  and the slot \<open>V + k\<close> holds the components of the vertex that the \<open>original\<close> of the
  entry \<open>k\<close> of \<open>splitIndexes\<close> references.
\<close>

lemma copyAll_props:
  "itemSize (foldl (\<lambda>a isp. copyVertex V (fst isp) (idx_get ixs (original (snd isp))) a) a (zip [0 ..< length sps] sps)) = itemSize a
   \<and> normalized (foldl (\<lambda>a isp. copyVertex V (fst isp) (idx_get ixs (original (snd isp))) a) a (zip [0 ..< length sps] sps)) = normalized a
   \<and> length (array (foldl (\<lambda>a isp. copyVertex V (fst isp) (idx_get ixs (original (snd isp))) a) a (zip [0 ..< length sps] sps))) = length (array a)
   \<and> (\<forall>p < length (array a). p < V * itemSize a \<or> (V + length sps) * itemSize a \<le> p \<longrightarrow>
         array (foldl (\<lambda>a isp. copyVertex V (fst isp) (idx_get ixs (original (snd isp))) a) a (zip [0 ..< length sps] sps)) ! p = array a ! p)
   \<and> (\<forall>k < length sps. \<forall>j < itemSize a.
         (V + k) * itemSize a + j < length (array a) \<and> original (sps ! k) < length ixs \<and> ixs ! original (sps ! k) < V \<longrightarrow>
         array (foldl (\<lambda>a isp. copyVertex V (fst isp) (idx_get ixs (original (snd isp))) a) a (zip [0 ..< length sps] sps)) ! ((V + k) * itemSize a + j)
           = array a ! (ixs ! original (sps ! k) * itemSize a + j))"
proof (induction sps rule: rev_induct)
  case Nil
  then show ?case by simp
next
  case (snoc sp sps)
  define F where "F = foldl (\<lambda>a isp. copyVertex V (fst isp) (idx_get ixs (original (snd isp))) a) a (zip [0 ..< length sps] sps)"
  define sz where "sz = itemSize a"
  define n where "n = length sps"
  from snoc.IH have IH: "itemSize F = sz
   \<and> normalized F = normalized a
   \<and> length (array F) = length (array a)
   \<and> (\<forall>p < length (array a). p < V * sz \<or> (V + n) * sz \<le> p \<longrightarrow> array F ! p = array a ! p)
   \<and> (\<forall>k < n. \<forall>j < sz.
         (V + k) * sz + j < length (array a) \<and> original (sps ! k) < length ixs \<and> ixs ! original (sps ! k) < V \<longrightarrow>
         array F ! ((V + k) * sz + j) = array a ! (ixs ! original (sps ! k) * sz + j))"
    unfolding F_def sz_def n_def .
  from IH have ih: "itemSize F = sz" "normalized F = normalized a" "length (array F) = length (array a)"
    "\<And>p. p < length (array a) \<Longrightarrow> p < V * sz \<or> (V + n) * sz \<le> p \<Longrightarrow> array F ! p = array a ! p"
    "\<And>k j. k < n \<Longrightarrow> j < sz \<Longrightarrow> (V + k) * sz + j < length (array a) \<Longrightarrow> original (sps ! k) < length ixs
        \<Longrightarrow> ixs ! original (sps ! k) < V \<Longrightarrow> array F ! ((V + k) * sz + j) = array a ! (ixs ! original (sps ! k) * sz + j)"
    by blast+
  define G where "G = copyVertex V n (idx_get ixs (original sp)) F"
  have step: "foldl (\<lambda>a isp. copyVertex V (fst isp) (idx_get ixs (original (snd isp))) a) a
        (zip [0 ..< length (sps @ [sp])] (sps @ [sp])) = G"
    unfolding zip_upt_snoc by (simp add: G_def F_def n_def)
  have len: "length (sps @ [sp]) = Suc n" by (simp add: n_def)
  note cv = copyVertex_props[where V = V and i = n and a = F, unfolded ih(1) ih(3)]
  have g1: "itemSize G = sz" "normalized G = normalized a" "length (array G) = length (array a)"
    using cv(1,2,3) ih(1,2,3) by (simp_all add: G_def)
  have g4: "array G ! p = array a ! p" if "p < length (array a)" "p < V * sz \<or> (V + Suc n) * sz \<le> p" for p
  proof -
    have "p < (V + n) * sz \<or> (V + Suc n) * sz \<le> p"
      using that(2) by (auto simp: add_mult_distrib)
    then have "array G ! p = array F ! p"
      unfolding G_def using that(1) by (intro cv(4)) simp_all
    moreover have "p < V * sz \<or> (V + n) * sz \<le> p"
      using that(2) by (auto simp: add_mult_distrib)
    ultimately show ?thesis using ih(4)[OF that(1)] by simp
  qed
  have g5: "array G ! ((V + k) * sz + j) = array a ! (ixs ! original ((sps @ [sp]) ! k) * sz + j)"
    if "k < Suc n" "j < sz" "(V + k) * sz + j < length (array a)" "original ((sps @ [sp]) ! k) < length ixs"
       "ixs ! original ((sps @ [sp]) ! k) < V" for k j
  proof (cases "k = n")
    case False
    with that(1) have k: "k < n" by simp
    then have nth: "(sps @ [sp]) ! k = sps ! k" by (simp add: n_def nth_append)
    have "(V + k) * sz + j < (V + Suc k) * sz" using that(2) by (simp add: add_mult_distrib)
    also have "\<dots> \<le> (V + n) * sz" using k by (intro mult_le_mono1) simp
    finally have "(V + k) * sz + j < (V + n) * sz" .
    then have "array G ! ((V + k) * sz + j) = array F ! ((V + k) * sz + j)"
      unfolding G_def using that(3) by (intro cv(4)) simp_all
    with ih(5)[OF k that(2,3)] that(4,5) nth show ?thesis by simp
  next
    case True
    then have nth: "(sps @ [sp]) ! k = sp" by (simp add: n_def)
    define w where "w = ixs ! original sp"
    have io: "idx_get ixs (original sp) = Some w" using that(4) nth by (simp add: idx_get_def w_def)
    have wV: "w < V" using that(5) nth by (simp add: w_def)
    have "array G ! ((V + n) * sz + j) = array F ! (w * sz + j)"
      unfolding G_def io using wV that(2,3) True by (intro cv(5)) simp_all
    moreover have "w * sz + j < Suc w * sz" using that(2) by simp
    then have lt: "w * sz + j < V * sz"
      using wV by (meson Suc_leI less_le_trans mult_le_mono1)
    have "V * sz \<le> (V + n) * sz + j" by (simp add: add_mult_distrib)
    with lt that(3) True have "w * sz + j < length (array a)" by simp
    with ih(4)[of "w * sz + j"] lt have "array F ! (w * sz + j) = array a ! (w * sz + j)" by simp
    ultimately show ?thesis using True nth by (simp add: w_def)
  qed
  note step' = step[unfolded len]
  show ?case
    unfolding len step' sz_def[symmetric]
    using g1 g4 g5 by blast
qed

section \<open>The steps of modify\<close>

lemma modify_indexed:
  assumes "\<not> isGeometry (h ! r)" and "index (h ! r) = Some ixs"
  shows "modify utils cvn h r cutOffAngle tryKeepNormals =
     (case getAttribute (h ! r) ''normal'' of
        None \<Rightarrow> (h, rebuild cvn (h ! r) cutOffAngle False None)
      | Some n \<Rightarrow> (h @ [deleteAttribute (h ! r) ''normal''],
          rebuild cvn (deleteAttribute (h ! r) ''normal'') cutOffAngle True
            (if tryKeepNormals then Some (array n) else None)))"
proof (cases "getAttribute (h ! r) ''normal''")
  case None
  with assms show ?thesis by (simp add: modify_def)
next
  case (Some n)
  have "index (deleteAttribute (h ! r) ''normal'') = Some ixs"
    using assms(2) by (simp add: deleteAttribute_def)
  with assms Some show ?thesis
    by (simp add: modify_def Let_def)
qed

lemma deleteAttribute_props:
  "index (deleteAttribute g name) = index g"
  "isGeometry (deleteAttribute g name) = isGeometry g"
  "name' \<noteq> name \<Longrightarrow> getAttribute (deleteAttribute g name) name' = getAttribute g name'"
  "getAttribute (deleteAttribute g name) name = None"
proof -
  show "index (deleteAttribute g name) = index g" "isGeometry (deleteAttribute g name) = isGeometry g"
    by (simp_all add: deleteAttribute_def)
  have "map_of (filter (\<lambda>na. fst na \<noteq> name) xs) k = (if k = name then None else map_of xs k)" for xs :: "(string \<times> BufferAttribute) list" and k
    by (induction xs) auto
  then show "name' \<noteq> name \<Longrightarrow> getAttribute (deleteAttribute g name) name' = getAttribute g name'"
    "getAttribute (deleteAttribute g name) name = None"
    by (simp_all add: deleteAttribute_def getAttribute_def)
qed

lemma map_of_map_snd:
  "map_of (map (\<lambda>na. (fst na, f (snd na))) xs) k = map_option f (map_of xs k)"
  by (induction xs) auto

lemma map_of_map_at:
  "k \<noteq> name \<Longrightarrow> map_of (map (\<lambda>na. if fst na = name then (fst na, F na) else na) xs) k = map_of xs k"
  by (induction xs) auto

lemma computeVertexNormals_other:
  "index (computeVertexNormals cvn g) = index g"
  "name \<noteq> ''normal'' \<Longrightarrow> getAttribute (computeVertexNormals cvn g) name = getAttribute g name"
proof -
  show "index (computeVertexNormals cvn g) = index g"
    by (simp add: computeVertexNormals_def Let_def split: option.splits)
  assume "name \<noteq> ''normal''"
  then show "getAttribute (computeVertexNormals cvn g) name = getAttribute g name"
    by (auto simp: computeVertexNormals_def Let_def getAttribute_def map_of_map_at map_add_def
        split: option.splits)
qed

lemma reconcile_other:
  assumes "reconcile oldNormals sps g = Inr g'"
  shows "index g' = index g" and "name \<noteq> ''normal'' \<Longrightarrow> getAttribute g' name = getAttribute g name"
proof -
  from assms have "g' = g \<or> g' = g\<lparr>attributes := map (\<lambda>na. if fst na = ''normal''
       then (fst na, (snd na)\<lparr>array := restoreNormals oldNormals (changedNormalsOf oldNormals sps) (array (snd na))\<rparr>)
       else na) (attributes g)\<rparr>"
    by (auto simp: reconcile_def Let_def split: if_splits option.splits)
  then show "index g' = index g" and "name \<noteq> ''normal'' \<Longrightarrow> getAttribute g' name = getAttribute g name"
    by (auto simp: getAttribute_def map_of_map_at)
qed

lemma growAttributes_Inr:
  "growAttributes n attrs = Inr as \<Longrightarrow>
     as = map (\<lambda>na. (fst na, grown n (snd na))) attrs
     \<and> (\<forall>na \<in> set attrs. length (array (snd na)) \<le> n * itemSize (snd na))"
proof (induction attrs arbitrary: as)
  case Nil
  then show ?case by simp
next
  case (Cons na attrs)
  obtain name a where na: "na = (name, a)" by (cases na)
  from Cons.prems obtain a' as' where s: "growAttribute n a = Inr a'" "growAttributes n attrs = Inr as'"
      "as = (name, a') # as'"
    by (auto simp: na split: sum.splits)
  from s(1) have "a' = grown n a" "length (array a) \<le> n * itemSize a"
    by (auto simp: growAttribute_def grown_def Let_def split: if_splits)
  with Cons.IH[OF s(2)] s(3) na show ?case by simp
qed

lemma growAttributes_fits:
  "\<forall>na \<in> set attrs. length (array (snd na)) \<le> n * itemSize (snd na)
     \<Longrightarrow> growAttributes n attrs = Inr (map (\<lambda>na. (fst na, grown n (snd na))) attrs)"
proof (induction attrs)
  case Nil
  then show ?case by simp
next
  case (Cons na attrs)
  obtain name a where na: "na = (name, a)" by (cases na)
  with Cons show ?case
    by (simp add: growAttribute_def grown_def Let_def)
qed

text \<open>What a returned geometry is made of.\<close>

lemma rebuild_Inr:
  assumes "rebuild cvn g cutOffAngle hadNormals oldNormals = Inr out"
  shows "\<exists>ixs p sps. index g = Some ixs \<and> getAttribute g ''position'' = Some p
      \<and> splitIndexesOf ixs (array p) cutOffAngle = Inr sps
      \<and> (\<forall>na \<in> set (attributes g).
            length (array (snd na)) \<le> (length (array p) div itemSize p + length sps) * itemSize (snd na))
      \<and> index out = Some (snd (applySplits ixs (length (array p) div itemSize p) sps
            (map (\<lambda>na. (fst na, grown (length (array p) div itemSize p + length sps) (snd na))) (attributes g))))
      \<and> (\<forall>name. name \<noteq> ''normal'' \<longrightarrow> getAttribute out name =
            map_of (fst (applySplits ixs (length (array p) div itemSize p) sps
            (map (\<lambda>na. (fst na, grown (length (array p) div itemSize p + length sps) (snd na))) (attributes g)))) name)"
proof -
  from assms obtain ixs where ixs: "index g = Some ixs"
    by (cases "index g") (simp_all add: rebuild_def)
  from assms ixs obtain p where p: "getAttribute g ''position'' = Some p"
    by (cases "getAttribute g ''position''") (simp_all add: rebuild_def)
  from assms ixs p obtain sps where sps: "splitIndexesOf ixs (array p) cutOffAngle = Inr sps"
    by (cases "splitIndexesOf ixs (array p) cutOffAngle") (simp_all add: rebuild_def)
  define V where "V = length (array p) div itemSize p"
  from assms ixs p sps obtain newAttributes where
    na: "growAttributes (V + length sps) (attributes g) = Inr newAttributes"
    by (cases "growAttributes (V + length sps) (attributes g)") (simp_all add: rebuild_def Let_def V_def)
  note ga = growAttributes_Inr[OF na]
  define st where "st = applySplits ixs V sps newAttributes"
  define g1 where "g1 = \<lparr>isGeometry = False, index = Some (snd st), attributes = fst st\<rparr>"
  have out: "(if hadNormals then
           (case oldNormals of
              None \<Rightarrow> Inr (computeVertexNormals cvn g1)
            | Some old \<Rightarrow> reconcile old sps (computeVertexNormals cvn g1))
         else Inr g1) = Inr out"
    using assms ixs p sps na unfolding g1_def st_def V_def by (simp add: rebuild_def Let_def)
  have "index out = index g1 \<and> (\<forall>name. name \<noteq> ''normal'' \<longrightarrow> getAttribute out name = getAttribute g1 name)"
  proof (cases hadNormals)
    case False
    with out show ?thesis by simp
  next
    case True
    show ?thesis
    proof (cases oldNormals)
      case None
      with True out have "out = computeVertexNormals cvn g1" by simp
      then show ?thesis by (simp add: computeVertexNormals_other)
    next
      case (Some old)
      with True out have "reconcile old sps (computeVertexNormals cvn g1) = Inr out" by simp
      from reconcile_other[OF this] show ?thesis by (simp add: computeVertexNormals_other)
    qed
  qed
  then have "index out = Some (snd st)"
    "\<forall>name. name \<noteq> ''normal'' \<longrightarrow> getAttribute out name = map_of (fst st) name"
    by (simp_all add: g1_def getAttribute_def)
  with ixs p sps ga show ?thesis
    unfolding st_def V_def by blast
qed

lemma valid_meshD:
  assumes "valid_mesh g"
  shows "\<exists>ixs p. index g = Some ixs \<and> getAttribute g ''position'' = Some p \<and> \<not> isGeometry g
     \<and> itemSize p = 3 \<and> length ixs mod 3 = 0 \<and> distinct (map fst (attributes g))
     \<and> (\<forall>i \<in> set ixs. i < count p)
     \<and> (\<forall>na \<in> set (attributes g). length (array (snd na)) = count p * itemSize (snd na))
     \<and> (\<forall>n. getAttribute g ''normal'' = Some n \<longrightarrow> itemSize n = 3)"
  using assms
  by (auto simp: valid_mesh_def list_all_iff split: option.splits)

text \<open>
  What \<open>modify\<close> hands to lines 188 to 285 on an indexed buffer geometry: the geometry
  itself, or its clone without the normal attribute.
\<close>

lemma modify_Inr:
  assumes "\<not> isGeometry (h ! r)" and "index (h ! r) = Some ixs"
    and "getAttribute (h ! r) ''position'' = Some p"
    and "modify utils cvn h r cutOffAngle tryKeepNormals = (h', Inr out)"
  shows "\<exists>g hadNormals oldNormals. rebuild cvn g cutOffAngle hadNormals oldNormals = Inr out
     \<and> index g = Some ixs \<and> getAttribute g ''position'' = Some p
     \<and> set (attributes g) \<subseteq> set (attributes (h ! r))
     \<and> (\<forall>name. name \<noteq> ''normal'' \<longrightarrow> getAttribute g name = getAttribute (h ! r) name)"
proof (cases "getAttribute (h ! r) ''normal''")
  case None
  with assms have "rebuild cvn (h ! r) cutOffAngle False None = Inr out"
    by (auto simp: modify_indexed)
  with assms(2,3) show ?thesis by blast
next
  case (Some n)
  define g where "g = deleteAttribute (h ! r) ''normal''"
  from Some assms have "rebuild cvn g cutOffAngle True (if tryKeepNormals then Some (array n) else None) = Inr out"
    by (auto simp: modify_indexed g_def)
  moreover have "index g = Some ixs" "getAttribute g ''position'' = Some p"
    "\<forall>name. name \<noteq> ''normal'' \<longrightarrow> getAttribute g name = getAttribute (h ! r) name"
    using assms(2,3) by (simp_all add: g_def deleteAttribute_props)
  moreover have "set (attributes g) \<subseteq> set (attributes (h ! r))"
    by (auto simp: g_def deleteAttribute_def)
  ultimately show ?thesis by blast
qed

section \<open>Triangle count and winding\<close>

text \<open>
  Claim C10. When \<open>modify\<close> returns a mesh for a valid mesh, the output index buffer
  has the length of the input's, so the triangle count is the same; and at every slot
  the output references a vertex slot that descends from the vertex the input
  references there, so every triangle keeps its three corners in their order.
\<close>

theorem triangle_count_and_winding_kept:
  assumes "valid_mesh (h ! r)"
    and "index (h ! r) = Some ixs" and "getAttribute (h ! r) ''position'' = Some p"
    and "modify utils cvn h r cutOffAngle tryKeepNormals = (h', Inr out)"
  shows "\<exists>sps ixs'. splitIndexesOf ixs (array p) cutOffAngle = Inr sps
     \<and> index out = Some ixs' \<and> length ixs' = length ixs
     \<and> (\<forall>c < length ixs. ixs' ! c < count p + length sps
           \<and> originOf ixs (count p) sps (ixs' ! c) = ixs ! c)"
proof -
  from valid_meshD[OF assms(1)] assms(2,3) have v: "\<not> isGeometry (h ! r)" "itemSize p = 3"
    "\<forall>i \<in> set ixs. i < count p" by auto
  from modify_Inr[OF v(1) assms(2,3,4)] obtain g hadNormals oldNormals where
    g: "rebuild cvn g cutOffAngle hadNormals oldNormals = Inr out"
      "index g = Some ixs" "getAttribute g ''position'' = Some p"
    by blast
  define V where "V = count p"
  have V: "length (array p) div itemSize p = V" by (simp add: V_def count_def)
  from rebuild_Inr[OF g(1)] obtain ixs0 p0 sps where r0: "index g = Some ixs0"
      "getAttribute g ''position'' = Some p0" "splitIndexesOf ixs0 (array p0) cutOffAngle = Inr sps"
      "index out = Some (snd (applySplits ixs0 (length (array p0) div itemSize p0) sps
            (map (\<lambda>na. (fst na, grown (length (array p0) div itemSize p0 + length sps) (snd na))) (attributes g))))"
    by blast
  from r0(1,2) g(2,3) have same: "ixs0 = ixs" "p0 = p" by simp_all
  define attrs where "attrs = map (\<lambda>na. (fst na, grown (V + length sps) (snd na))) (attributes g)"
  from r0(3,4) have sps: "splitIndexesOf ixs (array p) cutOffAngle = Inr sps"
    and out: "index out = Some (snd (applySplits ixs V sps attrs))"
    unfolding same V attrs_def by simp_all
  define ixs' where "ixs' = snd (applySplits ixs V sps attrs)"
  have len: "length ixs' = length ixs"
    by (simp add: ixs'_def applySplits_index(1))
  have "ixs' ! c < V + length sps \<and> originOf ixs V sps (ixs' ! c) = ixs ! c" if c: "c < length ixs" for c
  proof -
    from c v(3) have old: "ixs ! c < V" by (simp add: V_def)
    from applySplits_index(2)[OF c, of V sps attrs] consider
        (same) "ixs' ! c = ixs ! c"
      | (moved) k where "k < length sps" "c \<in> set (indexes (sps ! k))" "ixs' ! c = V + k"
      unfolding ixs'_def by blast
    then show ?thesis
    proof cases
      case same
      with old show ?thesis by (simp add: originOf_def)
    next
      case moved
      from splitIndexesOf_inv[OF sps, of "sps ! k"] moved(1,2)
      have "ixs ! c = ixs ! original (sps ! k)" by auto
      with moved show ?thesis by (simp add: originOf_def)
    qed
  qed
  with sps out len show ?thesis
    unfolding ixs'_def V_def by blast
qed

lemma output_index:
  assumes g: "rebuild cvn g cutOffAngle hadNormals oldNormals = Inr out"
    and ixs: "index g = Some ixs" and p: "getAttribute g ''position'' = Some p"
  shows "\<exists>sps ixs'. splitIndexesOf ixs (array p) cutOffAngle = Inr sps
     \<and> index out = Some ixs' \<and> length ixs' = length ixs
     \<and> (\<forall>c < length ixs. ixs' ! c = ixs ! c
           \<or> (\<exists>k < length sps. c \<in> set (indexes (sps ! k)) \<and> ixs' ! c = count p + k))"
proof -
  define V where "V = count p"
  have V: "length (array p) div itemSize p = V" by (simp add: V_def count_def)
  from rebuild_Inr[OF g] obtain ixs0 p0 sps where r0: "index g = Some ixs0"
      "getAttribute g ''position'' = Some p0" "splitIndexesOf ixs0 (array p0) cutOffAngle = Inr sps"
      "index out = Some (snd (applySplits ixs0 (length (array p0) div itemSize p0) sps
            (map (\<lambda>na. (fst na, grown (length (array p0) div itemSize p0 + length sps) (snd na))) (attributes g))))"
    by blast
  from r0(1,2) ixs p have same: "ixs0 = ixs" "p0 = p" by simp_all
  define attrs where "attrs = map (\<lambda>na. (fst na, grown (V + length sps) (snd na))) (attributes g)"
  from r0(3,4) have sps: "splitIndexesOf ixs (array p) cutOffAngle = Inr sps"
    and out: "index out = Some (snd (applySplits ixs V sps attrs))"
    unfolding same V attrs_def by simp_all
  have "\<forall>c < length ixs. snd (applySplits ixs V sps attrs) ! c = ixs ! c
     \<or> (\<exists>k < length sps. c \<in> set (indexes (sps ! k)) \<and> snd (applySplits ixs V sps attrs) ! c = V + k)"
    using applySplits_index(2)[of _ ixs V sps attrs] by blast
  with sps out applySplits_index(1)[of ixs V sps attrs] show ?thesis
    unfolding V_def by blast
qed


section \<open>Attributes of the appended vertex slots\<close>

lemma grown_props:
  assumes "length (array a) = V * itemSize a"
  shows "itemSize (grown (V + n) a) = itemSize a"
    and "length (array (grown (V + n) a)) = (V + n) * itemSize a"
    and "q < V * itemSize a \<Longrightarrow> array (grown (V + n) a) ! q = array a ! q"
  using assms by (simp_all add: grown_def nth_append add_mult_distrib)

text \<open>
  An attribute of the input, other than the normal, in the output: grown to the new
  vertex count, the old slots unchanged, and the slot of each entry of \<open>splitIndexes\<close>
  a copy of the slot of the vertex that the entry's \<open>original\<close> references.
\<close>

lemma output_attribute:
  assumes g: "rebuild cvn g cutOffAngle hadNormals oldNormals = Inr out"
    and ixs: "index g = Some ixs" and p: "getAttribute g ''position'' = Some p" and p3: "itemSize p = 3"
    and range: "\<forall>i \<in> set ixs. i < count p"
    and sps: "splitIndexesOf ixs (array p) cutOffAngle = Inr sps"
    and a0: "getAttribute g name = Some a0" and name: "name \<noteq> ''normal''"
    and len: "length (array a0) = count p * itemSize a0"
  shows "\<exists>a1. getAttribute out name = Some a1 \<and> itemSize a1 = itemSize a0
     \<and> length (array a1) = (count p + length sps) * itemSize a0
     \<and> (\<forall>v < count p. \<forall>j < itemSize a0. array a1 ! (v * itemSize a0 + j) = array a0 ! (v * itemSize a0 + j))
     \<and> (\<forall>k < length sps. \<forall>j < itemSize a0.
           array a1 ! ((count p + k) * itemSize a0 + j) = array a0 ! (ixs ! original (sps ! k) * itemSize a0 + j))"
proof -
  define V where "V = count p"
  define sz where "sz = itemSize a0"
  have V: "length (array p) div itemSize p = V" by (simp add: V_def count_def)
  from rebuild_Inr[OF g] obtain ixs0 p0 sps0 where r0: "index g = Some ixs0"
      "getAttribute g ''position'' = Some p0" "splitIndexesOf ixs0 (array p0) cutOffAngle = Inr sps0"
      "\<forall>name. name \<noteq> ''normal'' \<longrightarrow> getAttribute out name =
            map_of (fst (applySplits ixs0 (length (array p0) div itemSize p0) sps0
            (map (\<lambda>na. (fst na, grown (length (array p0) div itemSize p0 + length sps0) (snd na))) (attributes g)))) name"
    by blast
  from r0(1,2) ixs p have same: "ixs0 = ixs" "p0 = p" by simp_all
  with r0(3) sps have same': "sps0 = sps" by simp
  define copyAll where "copyAll = (\<lambda>a. foldl (\<lambda>a isp. copyVertex V (fst isp) (idx_get ixs (original (snd isp))) a) a
      (zip [0 ..< length sps] sps))"
  define b where "b = grown (V + length sps) a0"
  define a1 where "a1 = copyAll b"
  from r0(4) name have "getAttribute out name =
      map_of (fst (applySplits ixs V sps (map (\<lambda>na. (fst na, grown (V + length sps) (snd na))) (attributes g)))) name"
    unfolding same same' V by blast
  also have "\<dots> = map_of (map (\<lambda>na. (fst na, copyAll (snd na)))
      (map (\<lambda>na. (fst na, grown (V + length sps) (snd na))) (attributes g))) name"
    unfolding applySplits_def applySplit_foldl_fst copyAll_def fst_conv ..
  also have "\<dots> = map_option copyAll (map_option (grown (V + length sps)) (map_of (attributes g) name))"
    by (simp only: map_of_map_snd)
  also have "\<dots> = Some a1"
    using a0 by (simp add: getAttribute_def a1_def b_def)
  finally have out: "getAttribute out name = Some a1" .
  have lenb: "length (array a0) = V * itemSize a0" using len by (simp add: V_def)
  note gp = grown_props[OF lenb, where n = "length sps", folded b_def sz_def]
  have cp: "itemSize a1 = itemSize b
   \<and> normalized a1 = normalized b
   \<and> length (array a1) = length (array b)
   \<and> (\<forall>q < length (array b). q < V * itemSize b \<or> (V + length sps) * itemSize b \<le> q \<longrightarrow> array a1 ! q = array b ! q)
   \<and> (\<forall>k < length sps. \<forall>j < itemSize b.
         (V + k) * itemSize b + j < length (array b) \<and> original (sps ! k) < length ixs \<and> ixs ! original (sps ! k) < V \<longrightarrow>
         array a1 ! ((V + k) * itemSize b + j) = array b ! (ixs ! original (sps ! k) * itemSize b + j))"
    unfolding a1_def copyAll_def by (rule copyAll_props)
  have sz1: "itemSize a1 = sz" and len1: "length (array a1) = (V + length sps) * sz"
    using cp gp(1,2) by simp_all
  have old: "array a1 ! (v * sz + j) = array a0 ! (v * sz + j)" if "v < V" "j < sz" for v j
  proof -
    have "v * sz + j < Suc v * sz" using that(2) by simp
    also have "\<dots> \<le> V * sz" using that(1) by (intro mult_le_mono1) simp
    finally have lt: "v * sz + j < V * sz" .
    then have "v * sz + j < length (array b)" by (simp add: gp(2) add_mult_distrib)
    with cp lt gp(1) have "array a1 ! (v * sz + j) = array b ! (v * sz + j)" by simp
    with gp(3)[OF lt] show ?thesis by simp
  qed
  have new: "array a1 ! ((V + k) * sz + j) = array a0 ! (ixs ! original (sps ! k) * sz + j)"
    if "k < length sps" "j < sz" for k j
  proof -
    from splitIndexesOf_inv[OF sps, of "sps ! k"] that(1) have o: "original (sps ! k) < length ixs" by simp
    with range have w: "ixs ! original (sps ! k) < V" by (simp add: V_def)
    have "(V + k) * sz + j < (V + Suc k) * sz" using that(2) by (simp add: add_mult_distrib)
    also have "\<dots> \<le> (V + length sps) * sz" using that(1) by (intro mult_le_mono1) simp
    finally have "(V + k) * sz + j < length (array b)" by (simp add: gp(2))
    with cp that o w gp(1)
    have "array a1 ! ((V + k) * sz + j) = array b ! (ixs ! original (sps ! k) * sz + j)" by simp
    moreover have "ixs ! original (sps ! k) * sz + j < Suc (ixs ! original (sps ! k)) * sz"
      using that(2) by simp
    then have "ixs ! original (sps ! k) * sz + j < V * sz"
      using w by (meson Suc_leI less_le_trans mult_le_mono1)
    ultimately show ?thesis using gp(3) by simp
  qed
  from out sz1 len1 old new show ?thesis
    unfolding V_def sz_def by blast
qed

text \<open>
  Claim C9. When \<open>modify\<close> returns a mesh for a valid mesh, every attribute of the
  input other than the normal is in the output with the same item size, its old vertex
  slots unchanged, and one more slot per entry of \<open>splitIndexes\<close> that holds, component
  by component, the values of the original vertex the entry was split from. So the
  position that a corner of the output references is the position that the same
  corner of the input references.
\<close>

theorem split_slots_copy_original_vertex:
  assumes "valid_mesh (h ! r)"
    and "index (h ! r) = Some ixs" and "getAttribute (h ! r) ''position'' = Some p"
    and "modify utils cvn h r cutOffAngle tryKeepNormals = (h', Inr out)"
  shows "\<exists>sps ixs' p'. splitIndexesOf ixs (array p) cutOffAngle = Inr sps
     \<and> index out = Some ixs' \<and> getAttribute out ''position'' = Some p'
     \<and> (\<forall>name a0. name \<noteq> ''normal'' \<and> getAttribute (h ! r) name = Some a0 \<longrightarrow>
          (\<exists>a1. getAttribute out name = Some a1 \<and> itemSize a1 = itemSize a0
             \<and> length (array a1) = (count p + length sps) * itemSize a0
             \<and> (\<forall>v < count p. \<forall>j < itemSize a0.
                   array a1 ! (v * itemSize a0 + j) = array a0 ! (v * itemSize a0 + j))
             \<and> (\<forall>k < length sps. \<forall>j < itemSize a0.
                   array a1 ! ((count p + k) * itemSize a0 + j)
                     = array a0 ! (ixs ! original (sps ! k) * itemSize a0 + j))))
     \<and> (\<forall>c < length ixs. \<forall>j < 3. array p' ! (3 * (ixs' ! c) + j) = array p ! (3 * (ixs ! c) + j))"
proof -
  from valid_meshD[OF assms(1)] assms(2,3) have v: "\<not> isGeometry (h ! r)" "itemSize p = 3"
    "\<forall>i \<in> set ixs. i < count p"
    "\<forall>na \<in> set (attributes (h ! r)). length (array (snd na)) = count p * itemSize (snd na)" by auto
  from modify_Inr[OF v(1) assms(2,3,4)] obtain g hadNormals oldNormals where
    g: "rebuild cvn g cutOffAngle hadNormals oldNormals = Inr out"
      "index g = Some ixs" "getAttribute g ''position'' = Some p"
      "\<forall>name. name \<noteq> ''normal'' \<longrightarrow> getAttribute g name = getAttribute (h ! r) name"
    by blast
  from output_index[OF g(1,2,3)] obtain sps ixs' where
    sps: "splitIndexesOf ixs (array p) cutOffAngle = Inr sps"
    and ixs': "index out = Some ixs'"
      "\<forall>c < length ixs. ixs' ! c = ixs ! c
           \<or> (\<exists>k < length sps. c \<in> set (indexes (sps ! k)) \<and> ixs' ! c = count p + k)"
    by blast
  have attr: "\<exists>a1. getAttribute out name = Some a1 \<and> itemSize a1 = itemSize a0
             \<and> length (array a1) = (count p + length sps) * itemSize a0
             \<and> (\<forall>v < count p. \<forall>j < itemSize a0.
                   array a1 ! (v * itemSize a0 + j) = array a0 ! (v * itemSize a0 + j))
             \<and> (\<forall>k < length sps. \<forall>j < itemSize a0.
                   array a1 ! ((count p + k) * itemSize a0 + j)
                     = array a0 ! (ixs ! original (sps ! k) * itemSize a0 + j))"
    if "name \<noteq> ''normal''" "getAttribute (h ! r) name = Some a0" for name a0
  proof -
    from that(2) have "(name, a0) \<in> set (attributes (h ! r))"
      unfolding getAttribute_def by (rule map_of_SomeD)
    with v(4) have len: "length (array a0) = count p * itemSize a0" by auto
    from that g(4) have a0: "getAttribute g name = Some a0" by simp
    show ?thesis
      by (rule output_attribute[OF g(1,2,3) v(2,3) sps a0 that(1) len])
  qed
  have pn: "''position'' \<noteq> ''normal''" by simp
  from attr[OF pn assms(3)] obtain p' where P: "getAttribute out ''position'' = Some p'"
      "\<forall>v < count p. \<forall>j < itemSize p. array p' ! (v * itemSize p + j) = array p ! (v * itemSize p + j)"
      "\<forall>k < length sps. \<forall>j < itemSize p.
          array p' ! ((count p + k) * itemSize p + j) = array p ! (ixs ! original (sps ! k) * itemSize p + j)"
    by blast
  note p' = P(1) P(2)[unfolded v(2)] P(3)[unfolded v(2)]
  have pos: "array p' ! (3 * (ixs' ! c) + j) = array p ! (3 * (ixs ! c) + j)" if c: "c < length ixs" and j: "j < 3" for c j
  proof -
    from c v(3) have old: "ixs ! c < count p" by simp
    from ixs'(2) c consider (same) "ixs' ! c = ixs ! c"
      | (moved) k where "k < length sps" "c \<in> set (indexes (sps ! k))" "ixs' ! c = count p + k"
      by blast
    then show ?thesis
    proof cases
      case same
      with p'(2) old j show ?thesis by (simp add: mult.commute)
    next
      case moved
      from splitIndexesOf_inv[OF sps, of "sps ! k"] moved(1,2)
      have "ixs ! c = ixs ! original (sps ! k)" by auto
      with p'(3) moved(1,3) j show ?thesis by (simp add: mult.commute)
    qed
  qed
  show ?thesis
  proof (intro exI conjI)
    show "splitIndexesOf ixs (array p) cutOffAngle = Inr sps" by (rule sps)
    show "index out = Some ixs'" by (rule ixs'(1))
    show "getAttribute out ''position'' = Some p'" by (rule p'(1))
    show "\<forall>name a0. name \<noteq> ''normal'' \<and> getAttribute (h ! r) name = Some a0 \<longrightarrow>
          (\<exists>a1. getAttribute out name = Some a1 \<and> itemSize a1 = itemSize a0
             \<and> length (array a1) = (count p + length sps) * itemSize a0
             \<and> (\<forall>v < count p. \<forall>j < itemSize a0.
                   array a1 ! (v * itemSize a0 + j) = array a0 ! (v * itemSize a0 + j))
             \<and> (\<forall>k < length sps. \<forall>j < itemSize a0.
                   array a1 ! ((count p + k) * itemSize a0 + j)
                     = array a0 ! (ixs ! original (sps ! k) * itemSize a0 + j)))"
    proof (intro allI impI)
      fix name a0
      assume "name \<noteq> ''normal'' \<and> getAttribute (h ! r) name = Some a0"
      then have "name \<noteq> ''normal''" "getAttribute (h ! r) name = Some a0" by simp_all
      then show "\<exists>a1. getAttribute out name = Some a1 \<and> itemSize a1 = itemSize a0
             \<and> length (array a1) = (count p + length sps) * itemSize a0
             \<and> (\<forall>v < count p. \<forall>j < itemSize a0.
                   array a1 ! (v * itemSize a0 + j) = array a0 ! (v * itemSize a0 + j))
             \<and> (\<forall>k < length sps. \<forall>j < itemSize a0.
                   array a1 ! ((count p + k) * itemSize a0 + j)
                     = array a0 ! (ixs ! original (sps ! k) * itemSize a0 + j))"
        by (rule attr)
    qed
    show "\<forall>c < length ixs. \<forall>j < 3. array p' ! (3 * (ixs' ! c) + j) = array p ! (3 * (ixs ! c) + j)"
      using pos by simp
  qed
qed

section \<open>Evaluation on the example meshes\<close>

lemma replicate_numeral: "replicate (numeral k) x = x # replicate (pred_numeral k) x"
  by (simp add: numeral_eq_Suc)

lemma list_update_numeral: "(x # xs)[numeral k := y] = x # xs[pred_numeral k := y]"
  by (simp add: numeral_eq_Suc)

lemmas eval_list = replicate_numeral list_update_numeral

lemma length_ixsA: "length ixsA = 6"
  by (simp add: ixsA_def)

lemma faceNormalsA:
  "faceNormal ixsA posA 0 = Vector3 (Fin 0) (Fin 0) (Fin 1)"
  "faceNormal ixsA posA 3 = Vector3 (Fin 1) (Fin 0) (Fin 0)"
  by (simp_all add: ixsA_def posA_def faceNormal_def vec_at_def idx_get_def f32_get_def
     sub_def cross_def Let_def)

lemma normalsA: "computeNormals ixsA posA = map Fin [0,0,1, 0,0,1, 0,0,1, 1,0,0, 1,0,0, 1,0,0]"
  by (simp add: computeNormals_def length_ixsA faceNormalsA eval_list upt_rec Let_def)

lemma mapA: "mapPositionsToIndexes posA ixsA = Inr [Some [Suc 0], Some [0, 3], Some [2], Some [4], Some [5]]"
  by (simp add: mapPositionsToIndexes_def pushCorner_def posA_def ixsA_def Let_def eval_list upt_rec)

lemma edgeSplit_single: "edgeSplit normals [x] cutOff None = []"
  by (subst edgeSplit.simps) (simp add: chooseGroup_def longer_def edgeSplitToGroups_filter)

lemma cutOffOf_0: "cutOffOf (Fin 0) = Fin (999 / 1000)"
  by (simp add: cutOffOf_def)

lemma normalsA_vec:
  "vec_at (computeNormals ixsA posA) (Some 0) = Vector3 (Fin 0) (Fin 0) (Fin 1)"
  "vec_at (computeNormals ixsA posA) (Some 3) = Vector3 (Fin 1) (Fin 0) (Fin 0)"
  by (simp_all add: normalsA vec_at_def f32_get_def)

lemma edgeSplitA: "edgeSplit (computeNormals ixsA posA) [0, 3] (Fin (999 / 1000)) None = [\<lparr>original = 0, indexes = [3]\<rparr>]"
  apply (subst edgeSplit.simps)
  apply (simp add: chooseGroup_def longer_def edgeSplitToGroups_filter normalsA_vec dot_def)
  apply (subst edgeSplit.simps)
  apply (simp add: chooseGroup_def longer_def edgeSplitToGroups_filter)
  done

lemma splitsA: "splitIndexesOf ixsA posA (Fin 0) = Inr [\<lparr>original = 0, indexes = [3]\<rparr>]"
  by (simp add: splitIndexesOf_def mapA cutOffOf_0 edgeSplit_single edgeSplitA)

lemma meshA_noNormal:
  "deleteAttribute meshA ''normal'' = \<lparr>isGeometry = False, index = Some ixsA,
     attributes = [(''position'', \<lparr>array = posA, itemSize = 3, normalized = False\<rparr>),
                   (''uv'', \<lparr>array = uvA, itemSize = 2, normalized = False\<rparr>)]\<rparr>"
  by (simp add: deleteAttribute_def meshA_def)

lemma applySplitsA:
  "applySplits ixsA 5 [\<lparr>original = 0, indexes = [3]\<rparr>]
     [(''position'', \<lparr>array = posA @ replicate 3 (Fin 0), itemSize = 3, normalized = False\<rparr>),
      (''uv'', \<lparr>array = uvA @ replicate 2 (Fin 0), itemSize = 2, normalized = False\<rparr>)]
   = ([(''position'', \<lparr>array = posA', itemSize = 3, normalized = False\<rparr>),
       (''uv'', \<lparr>array = uvA', itemSize = 2, normalized = False\<rparr>)], ixsA')"
  by (simp add: applySplits_def applySplit_def copyVertex_def idx_get_def f32_get_def Let_def
      ixsA_def posA_def uvA_def ixsA'_def posA'_def uvA'_def eval_list upt_rec)

lemma rebuildA_plain:
  "rebuild cvn (deleteAttribute meshA ''normal'') (Fin 0) False None
     = Inr \<lparr>isGeometry = False, index = Some ixsA',
         attributes = [(''position'', \<lparr>array = posA', itemSize = 3, normalized = False\<rparr>),
                       (''uv'', \<lparr>array = uvA', itemSize = 2, normalized = False\<rparr>)]\<rparr>"
proof -
  have len: "length posA = 15" "length uvA = 10" by (simp_all add: posA_def uvA_def)
  show ?thesis
    by (simp add: rebuild_def meshA_noNormal getAttribute_def splitsA growAttribute_def Let_def len applySplitsA)
qed

lemma changedNormalsA:
  "changedNormalsOf nrmA [\<lparr>original = 0, indexes = [3]\<rparr>] = [True, False, False, False, False]"
  by (simp add: changedNormalsOf_def nrmA_def eval_list)

lemma restoreNormalsA:
  "restoreNormals nrmA [True, False, False, False, False] (map f [0 ..< 18]) = nrmA' f"
  by (simp add: restoreNormals_def nrmA_def nrmA'_def f32_get_def eval_list upt_rec) (simp add: eval_nat_numeral)

lemma rebuildA_keep:
  "rebuild cvn (deleteAttribute meshA ''normal'') (Fin 0) True (Some nrmA) = Inr (meshA' cvn)"
proof -
  have len: "length posA = 15" "length uvA = 10" "length posA' = 18" "length nrmA = 15"
    by (simp_all add: posA_def uvA_def posA'_def nrmA_def)
  show ?thesis
    by (simp add: rebuild_def meshA_noNormal getAttribute_def splitsA growAttribute_def Let_def len applySplitsA
        computeVertexNormals_def count_def reconcile_def changedNormalsA restoreNormalsA meshA'_def)
qed

lemma modifyA_keep:
  "modify utils cvn [meshA] 0 (Fin 0) True = ([meshA, deleteAttribute meshA ''normal''], Inr (meshA' cvn))"
proof -
  have "\<not> isGeometry ([meshA] ! 0)" "index ([meshA] ! 0) = Some ixsA"
    "getAttribute ([meshA] ! 0) ''normal'' = Some \<lparr>array = nrmA, itemSize = 3, normalized = False\<rparr>"
    by (simp_all add: meshA_def getAttribute_def)
  then show ?thesis
    by (simp add: modify_indexed rebuildA_keep)
qed

lemma valid_meshA: "valid_mesh meshA"
  by (simp add: valid_mesh_def meshA_def getAttribute_def count_def ixsA_def posA_def uvA_def nrmA_def)

lemma meshA_parts:
  "index ([meshA] ! 0) = Some ixsA"
  "getAttribute ([meshA] ! 0) ''position'' = Some \<lparr>array = posA, itemSize = 3, normalized = False\<rparr>"
  "getAttribute ([meshA] ! 0) ''uv'' = Some \<lparr>array = uvA, itemSize = 2, normalized = False\<rparr>"
  "getAttribute ([meshA] ! 0) ''normal'' = Some \<lparr>array = nrmA, itemSize = 3, normalized = False\<rparr>"
  by (simp_all add: meshA_def getAttribute_def)

lemma meshA'_parts:
  "index (meshA' cvn) = Some ixsA'"
  "getAttribute (meshA' cvn) ''position'' = Some \<lparr>array = posA', itemSize = 3, normalized = False\<rparr>"
  "getAttribute (meshA' cvn) ''uv'' = Some \<lparr>array = uvA', itemSize = 2, normalized = False\<rparr>"
  "getAttribute (meshA' cvn) ''normal'' = Some \<lparr>array = nrmA' (cvn ixsA' posA'), itemSize = 3, normalized = False\<rparr>"
  by (simp_all add: meshA'_def getAttribute_def)

theorem triangle_count_and_winding_kept_witness:
  "valid_mesh meshA
   \<and> modify None cvn0 [meshA] 0 (Fin 0) True = ([meshA, deleteAttribute meshA ''normal''], Inr (meshA' cvn0))
   \<and> index meshA = Some [Suc 0, 0, 2, Suc 0, 3, 4]
   \<and> index (meshA' cvn0) = Some [Suc 0, 0, 2, 5, 3, 4]
   \<and> splitIndexesOf ixsA posA (Fin 0) = Inr [\<lparr>original = 0, indexes = [3]\<rparr>]
   \<and> originOf ixsA 5 [\<lparr>original = 0, indexes = [3]\<rparr>] 5 = Suc 0"
proof -
  from triangle_count_and_winding_kept[OF _ meshA_parts(1,2) modifyA_keep[of None cvn0]] valid_meshA
  obtain sps ixs' where w: "splitIndexesOf ixsA posA (Fin 0) = Inr sps"
      "index (meshA' cvn0) = Some ixs'" "length ixs' = length ixsA"
      "\<forall>c < length ixsA. ixs' ! c < count \<lparr>array = posA, itemSize = 3, normalized = False\<rparr> + length sps
           \<and> originOf ixsA (count \<lparr>array = posA, itemSize = 3, normalized = False\<rparr>) sps (ixs' ! c) = ixsA ! c"
    by auto
  from w(1) have sps: "sps = [\<lparr>original = 0, indexes = [3]\<rparr>]" by (simp add: splitsA)
  from w(2) have ixs': "ixs' = ixsA'" by (simp add: meshA'_parts)
  have cnt: "count \<lparr>array = posA, itemSize = 3, normalized = False\<rparr> = 5"
    by (simp add: count_def posA_def)
  from w(4)[rule_format, of 3] have "originOf ixsA 5 [\<lparr>original = 0, indexes = [3]\<rparr>] 5 = Suc 0"
    unfolding sps ixs' cnt by (simp add: ixsA_def ixsA'_def)
  then show ?thesis
    using valid_meshA modifyA_keep[of None cvn0] splitsA
    by (simp add: meshA_def meshA'_parts ixsA_def ixsA'_def)
qed

theorem split_slots_copy_original_vertex_witness:
  "valid_mesh meshA
   \<and> modify None cvn0 [meshA] 0 (Fin 0) True = ([meshA, deleteAttribute meshA ''normal''], Inr (meshA' cvn0))
   \<and> splitIndexesOf ixsA posA (Fin 0) = Inr [\<lparr>original = 0, indexes = [3]\<rparr>]
   \<and> uvA' ! 10 = uvA ! 2 \<and> uvA' ! 11 = uvA ! 3
   \<and> posA' ! (3 * (ixsA' ! 3) + 1) = posA ! (3 * (ixsA ! 3) + 1)"
proof -
  define pA where "pA = \<lparr>array = posA, itemSize = 3, normalized = False\<rparr>"
  define uA where "uA = \<lparr>array = uvA, itemSize = 2, normalized = False\<rparr>"
  have valid0: "valid_mesh ([meshA] ! 0)" by (simp add: valid_meshA)
  have pos0: "getAttribute ([meshA] ! 0) ''position'' = Some pA"
    unfolding pA_def by (rule meshA_parts(2))
  have uv0: "getAttribute ([meshA] ! 0) ''uv'' = Some uA"
    unfolding uA_def by (rule meshA_parts(3))
  have cnt: "count pA = 5" by (simp add: count_def posA_def pA_def)
  from split_slots_copy_original_vertex[OF valid0 meshA_parts(1) pos0 modifyA_keep[of None cvn0]]
  obtain sps ixs' p' where w: "splitIndexesOf ixsA (array pA) (Fin 0) = Inr sps
     \<and> index (meshA' cvn0) = Some ixs' \<and> getAttribute (meshA' cvn0) ''position'' = Some p'
     \<and> (\<forall>name a0. name \<noteq> ''normal'' \<and> getAttribute ([meshA] ! 0) name = Some a0 \<longrightarrow>
          (\<exists>a1. getAttribute (meshA' cvn0) name = Some a1 \<and> itemSize a1 = itemSize a0
             \<and> length (array a1) = (count pA + length sps) * itemSize a0
             \<and> (\<forall>v < count pA. \<forall>j < itemSize a0.
                   array a1 ! (v * itemSize a0 + j) = array a0 ! (v * itemSize a0 + j))
             \<and> (\<forall>k < length sps. \<forall>j < itemSize a0.
                   array a1 ! ((count pA + k) * itemSize a0 + j)
                     = array a0 ! (ixsA ! original (sps ! k) * itemSize a0 + j))))
     \<and> (\<forall>c < length ixsA. \<forall>j < 3. array p' ! (3 * (ixs' ! c) + j) = array pA ! (3 * (ixsA ! c) + j))"
    by (elim exE) (rule that)
  note w1 = w[THEN conjunct1]
  note w2 = w[THEN conjunct2, THEN conjunct1]
  note w3 = w[THEN conjunct2, THEN conjunct2, THEN conjunct1]
  note w4 = w[THEN conjunct2, THEN conjunct2, THEN conjunct2, THEN conjunct1]
  note w5 = w[THEN conjunct2, THEN conjunct2, THEN conjunct2, THEN conjunct2]
  from w1 have sps: "sps = [\<lparr>original = 0, indexes = [3]\<rparr>]" by (simp add: splitsA pA_def)
  from w2 have ixs': "ixs' = ixsA'" by (simp add: meshA'_parts)
  from w3 have p': "p' = \<lparr>array = posA', itemSize = 3, normalized = False\<rparr>" by (simp add: meshA'_parts)
  have "''uv'' \<noteq> ''normal'' \<and> getAttribute ([meshA] ! 0) ''uv'' = Some uA \<longrightarrow>
          (\<exists>a1. getAttribute (meshA' cvn0) ''uv'' = Some a1 \<and> itemSize a1 = itemSize uA
             \<and> length (array a1) = (count pA + length sps) * itemSize uA
             \<and> (\<forall>v < count pA. \<forall>j < itemSize uA.
                   array a1 ! (v * itemSize uA + j) = array uA ! (v * itemSize uA + j))
             \<and> (\<forall>k < length sps. \<forall>j < itemSize uA.
                   array a1 ! ((count pA + k) * itemSize uA + j)
                     = array uA ! (ixsA ! original (sps ! k) * itemSize uA + j)))"
    by (rule w4[THEN spec, THEN spec])
  with uv0 have uv: "\<forall>k < length sps. \<forall>j < 2. uvA' ! ((5 + k) * 2 + j) = uvA ! (ixsA ! original (sps ! k) * 2 + j)"
    unfolding cnt by (simp add: meshA'_parts uA_def)
  from uv[rule_format, of 0 0] uv[rule_format, of 0 1]
  have "uvA' ! 10 = uvA ! 2" "uvA' ! 11 = uvA ! 3"
    by (simp_all add: sps ixsA_def)
  moreover from w5[rule_format, of 3 1]
  have "posA' ! (3 * (ixsA' ! 3) + 1) = posA ! (3 * (ixsA ! 3) + 1)"
    unfolding ixs' p' by (simp add: length_ixsA pA_def)
  ultimately show ?thesis
    using valid_meshA modifyA_keep[of None cvn0] splitsA by simp
qed

section \<open>Restoring the authored normals\<close>

text \<open>
  Claim C1, at the input \<open>meshA\<close> with the angle 0 and \<open>tryKeepNormals\<close> true. The
  only entry of \<open>splitIndexes\<close> has the slot 0 as its \<open>original\<close>, and the slot 0
  references the vertex 1: the vertex 1 is the one that was split, and the vertex 0 was
  not. \<open>changedNormals\<close> is marked at the slot 0 instead of the vertex 1, so the output
  has the authored normal at the split vertex 1 and the recomputed normal at the vertex
  0 that was never split.
\<close>

theorem restore_marks_slot_instead_of_vertex:
  "modify utils cvn [meshA] 0 (Fin 0) True = ([meshA, deleteAttribute meshA ''normal''], Inr (meshA' cvn))
   \<and> splitIndexesOf ixsA posA (Fin 0) = Inr [\<lparr>original = 0, indexes = [3]\<rparr>]
   \<and> ixsA ! 0 = Suc 0
   \<and> changedNormalsOf nrmA [\<lparr>original = 0, indexes = [3]\<rparr>] = [True, False, False, False, False]
   \<and> map_option array (getAttribute (meshA' cvn) ''normal'') = Some (nrmA' (cvn ixsA' posA'))
   \<and> take 3 (drop 3 (nrmA' (cvn ixsA' posA'))) = take 3 (drop 3 nrmA)
   \<and> take 3 (nrmA' (cvn ixsA' posA')) = map (cvn ixsA' posA') [0, 1, 2]"
  by (simp add: modifyA_keep splitsA changedNormalsA meshA'_parts) (simp add: ixsA_def nrmA'_def nrmA_def)

section \<open>Vertices that no corner references\<close>

lemma mapB:
  "mapPositionsToIndexes posA [Suc 0, 0, 2] = Inr [Some [Suc 0], Some [0], Some [2], None, None]"
  by (simp add: mapPositionsToIndexes_def pushCorner_def posA_def Let_def eval_list upt_rec)

text \<open>
  Claim C2, at the input \<open>meshB\<close>. The corner index holds a hole, not an empty
  sequence, for each of the vertices 3 and 4, and \<open>modify\<close> ends with a TypeError at
  the first of them, whatever the angle.
\<close>

theorem unreferenced_vertex_throws:
  "valid_mesh meshB
   \<and> mapPositionsToIndexes posA [Suc 0, 0, 2] = Inr [Some [Suc 0], Some [0], Some [2], None, None]
   \<and> modify utils cvn [meshB] 0 cutOffAngle tryKeepNormals = ([meshB], Inl TypeError)"
proof -
  have v: "valid_mesh meshB"
    by (simp add: valid_mesh_def meshB_def getAttribute_def count_def posA_def)
  have "splitIndexesOf [Suc 0, 0, 2] posA cutOffAngle = Inl TypeError"
    by (simp add: splitIndexesOf_def mapB splitAll_hole)
  then have "rebuild cvn meshB cutOffAngle False None = Inl TypeError"
    by (simp add: rebuild_def meshB_def getAttribute_def)
  moreover have "\<not> isGeometry ([meshB] ! 0)" "index ([meshB] ! 0) = Some [Suc 0, 0, 2]"
    "getAttribute ([meshB] ! 0) ''normal'' = None"
    by (simp_all add: meshB_def getAttribute_def)
  ultimately have "modify utils cvn [meshB] 0 cutOffAngle tryKeepNormals = ([meshB], Inl TypeError)"
    by (simp add: modify_indexed)
  with v mapB show ?thesis by simp
qed

section \<open>Unsupported inputs\<close>

text \<open>
  Claim C7, as it is stated, fails on a legacy geometry. With no
  \<open>BufferGeometryUtils\<close>, the call on \<open>meshL\<close>, which has no index buffer either,
  ends at line 155: it has logged an error and returns no value, and no exception
  reaches the caller.
\<close>

theorem legacy_geometry_returns_without_exception:
  "isGeometry meshL \<and> index meshL = None
   \<and> modify None cvn0 [meshL] 0 (Fin 0) True = ([meshL], Inl LegacyGeometry)
   \<and> \<not> thrown LegacyGeometry"
  by (simp add: modify_def meshL_def meshN_def)

text \<open>
  Claim C7, amended. A buffer geometry without an index buffer, when
  \<open>BufferGeometryUtils\<close> is undefined, makes the call throw, with no mesh returned;
  every object that was in the heap before the call, the caller's mesh among them, is
  the same after it, since the attribute deleted before the throw is deleted from a
  clone. A legacy geometry raises no exception: whether or not \<open>BufferGeometryUtils\<close>
  is defined, the call logs an error and returns no value, and the heap is unchanged.
\<close>

theorem non_indexed_throws_legacy_returns:
  assumes "r < length h"
  shows "(\<not> isGeometry (h ! r) \<and> index (h ! r) = None \<longrightarrow>
            (\<exists>h'. modify None cvn h r cutOffAngle tryKeepNormals = (h', Inl NoBufferGeometryUtils)
               \<and> thrown NoBufferGeometryUtils \<and> h' ! r = h ! r \<and> take (length h) h' = h))
       \<and> (isGeometry (h ! r) \<longrightarrow>
            modify utils cvn h r cutOffAngle tryKeepNormals = (h, Inl LegacyGeometry)
               \<and> \<not> thrown LegacyGeometry)"
proof (rule conjI; rule impI)
  assume a: "\<not> isGeometry (h ! r) \<and> index (h ! r) = None"
  then have none: "index (h ! r) = None" and buf: "\<not> isGeometry (h ! r)" by simp_all
  show "\<exists>h'. modify None cvn h r cutOffAngle tryKeepNormals = (h', Inl NoBufferGeometryUtils)
               \<and> thrown NoBufferGeometryUtils \<and> h' ! r = h ! r \<and> take (length h) h' = h"
  proof (cases "getAttribute (h ! r) ''normal''")
    case None
    with buf none show ?thesis by (simp add: modify_def)
  next
    case (Some n)
    have "index (deleteAttribute (h ! r) ''normal'') = None"
      using none by (simp add: deleteAttribute_def)
    with buf Some none have "modify None cvn h r cutOffAngle tryKeepNormals
        = (h @ [deleteAttribute (h ! r) ''normal''], Inl NoBufferGeometryUtils)"
      by (simp add: modify_def Let_def)
    with assms show ?thesis by (simp add: nth_append)
  qed
next
  assume "isGeometry (h ! r)"
  then show "modify utils cvn h r cutOffAngle tryKeepNormals = (h, Inl LegacyGeometry)
               \<and> \<not> thrown LegacyGeometry"
    by (simp add: modify_def)
qed

theorem non_indexed_throws_legacy_returns_witness:
  "modify None cvn0 [meshN] 0 (Fin 0) True = ([meshN, deleteAttribute meshN ''normal''], Inl NoBufferGeometryUtils)
   \<and> \<not> isGeometry meshN \<and> index meshN = None
   \<and> [meshN, deleteAttribute meshN ''normal''] ! 0 = meshN
   \<and> modify (Some id) cvn0 [meshL] 0 (Fin 0) True = ([meshL], Inl LegacyGeometry)
   \<and> isGeometry meshL"
proof -
  have a: "(0::nat) < length [meshN]" and a': "\<not> isGeometry ([meshN] ! 0) \<and> index ([meshN] ! 0) = None"
    by (simp_all add: meshN_def meshA_def)
  have b: "(0::nat) < length [meshL]" and b': "isGeometry ([meshL] ! 0)"
    by (simp_all add: meshL_def)
  from non_indexed_throws_legacy_returns[OF a, of cvn0 "Fin 0" True "Some id", THEN conjunct1, rule_format, OF a']
  obtain h' where h': "modify None cvn0 [meshN] 0 (Fin 0) True = (h', Inl NoBufferGeometryUtils)"
    by blast
  from non_indexed_throws_legacy_returns[OF b, of cvn0 "Fin 0" True "Some id", THEN conjunct2, rule_format, OF b']
  have l: "modify (Some id) cvn0 [meshL] 0 (Fin 0) True = ([meshL], Inl LegacyGeometry)"
    by simp
  have "fst (modify None cvn0 [meshN] 0 (Fin 0) True) = [meshN, deleteAttribute meshN ''normal'']"
    by (simp add: modify_def meshN_def meshA_def getAttribute_def deleteAttribute_def Let_def)
  with h' l a' b' show ?thesis by simp
qed

section \<open>The cut-off angle \<open>\<pi>\<close>\<close>

lemma normalizeV_cases:
  "(\<exists>x y z. normalizeV a = Vector3 (Fin x) (Fin y) (Fin z) \<and> x * x + y * y + z * z \<le> 1)
   \<or> vx (normalizeV a) = NaN \<or> vy (normalizeV a) = NaN \<or> vz (normalizeV a) = NaN"
proof (cases a)
  case (Vector3 p q r)
  show ?thesis
  proof (cases "\<exists>x y z. p = Fin x \<and> q = Fin y \<and> r = Fin z")
    case False
    then have "vlength a = NaN"
      unfolding Vector3 by (cases p; cases q; cases r) (simp_all add: vlength_def)
    with False show ?thesis
      unfolding Vector3 by (cases p; cases q; cases r)
        (simp_all add: normalizeV_def divideScalar_def multiplyScalar_def)
  next
    case True
    then obtain x y z where xyz: "p = Fin x" "q = Fin y" "r = Fin z" by blast
    define s where "s = x * x + y * y + z * z"
    have s0: "0 \<le> s" by (simp add: s_def)
    have len: "vlength a = Fin (sqrt s)"
      using s0 by (simp add: Vector3 xyz vlength_def s_def not_less)
    show ?thesis
    proof (cases "s = 0")
      case True
      then have "x = 0 \<and> y = 0 \<and> z = 0"
        unfolding s_def by (metis add_nonneg_eq_0_iff mult_eq_0_iff zero_le_square add_nonneg_nonneg)
      with len True have "normalizeV a = Vector3 (Fin 0) (Fin 0) (Fin 0)"
        by (simp add: normalizeV_def divideScalar_def multiplyScalar_def Vector3 xyz)
      then show ?thesis by simp
    next
      case False
      with s0 have pos: "0 < sqrt s" by simp
      define l where "l = sqrt s"
      have ll: "l * l = s" using s0 by (simp add: l_def)
      have l0: "l \<noteq> 0" using pos by (simp add: l_def)
      have n: "normalizeV a = Vector3 (Fin (x * (1 / l))) (Fin (y * (1 / l))) (Fin (z * (1 / l)))"
        using len l0 by (simp add: normalizeV_def divideScalar_def multiplyScalar_def Vector3 xyz l_def)
      have "x * (1 / l) * (x * (1 / l)) + y * (1 / l) * (y * (1 / l)) + z * (1 / l) * (z * (1 / l))
          = s / (l * l)"
        by (simp add: s_def add_divide_distrib)
      also have "\<dots> = 1" using ll l0 False by simp
      finally show ?thesis using n by auto
    qed
  qed
qed

lemma dot_lower_bound:
  fixes x y z x' y' z' :: real
  assumes "x * x + y * y + z * z \<le> 1" "x' * x' + y' * y' + z' * z' \<le> 1"
  shows "- 1 \<le> x * x' + y * y' + z * z'"
proof -
  define A where "A = x * x + y * y + z * z"
  define B where "B = x' * x' + y' * y' + z' * z'"
  define D where "D = x * x' + y * y' + z * z'"
  have "0 \<le> (x + x') * (x + x') + (y + y') * (y + y') + (z + z') * (z + z')"
    by (simp add: add_nonneg_nonneg)
  also have "\<dots> = A + B + 2 * D"
    by (simp add: algebra_simps A_def B_def D_def)
  finally have "0 \<le> A + B + 2 * D" .
  moreover have "A \<le> 1" "B \<le> 1" using assms by (simp_all add: A_def B_def)
  ultimately have "- 1 \<le> D" by linarith
  then show ?thesis by (simp add: D_def)
qed

lemma dot_NaN:
  "vx a = NaN \<or> vy a = NaN \<or> vz a = NaN \<Longrightarrow> dot a b = NaN"
  "vx b = NaN \<or> vy b = NaN \<or> vz b = NaN \<Longrightarrow> dot a b = NaN"
  by (auto simp: dot_def)

text \<open>The dot product of two normalized vectors is never below \<open>-1\<close>.\<close>

lemma normalized_dot_not_below:
  assumes "t < - 1"
  shows "\<not> nlt (dot (normalizeV a) (normalizeV b)) (Fin t)"
proof -
  consider (nan) "vx (normalizeV a) = NaN \<or> vy (normalizeV a) = NaN \<or> vz (normalizeV a) = NaN"
    | (nan') "vx (normalizeV b) = NaN \<or> vy (normalizeV b) = NaN \<or> vz (normalizeV b) = NaN"
    | (fin) x y z x' y' z' where "normalizeV a = Vector3 (Fin x) (Fin y) (Fin z)" "x * x + y * y + z * z \<le> 1"
        "normalizeV b = Vector3 (Fin x') (Fin y') (Fin z')" "x' * x' + y' * y' + z' * z' \<le> 1"
    using normalizeV_cases[of a] normalizeV_cases[of b] by blast
  then show ?thesis
  proof cases
    case nan
    then show ?thesis by (simp add: dot_NaN(1))
  next
    case nan'
    then show ?thesis by (simp add: dot_NaN(2))
  next
    case fin
    from dot_lower_bound[OF fin(2,4)] assms show ?thesis
      by (simp add: fin(1,3) dot_def)
  qed
qed

lemma cutOffOf_pi: "cutOffOf (Fin pi) = Fin (- (1001 / 1000))"
  by (simp add: cutOffOf_def)

lemma edgeSplit_pi: "edgeSplit normals xs (Fin (- (1001 / 1000))) None = []"
proof (cases "xs = []")
  case True
  then show ?thesis by (subst edgeSplit.simps) simp
next
  case False
  from chooseGroup_cases[OF False, of normals "Fin (- (1001 / 1000))"] obtain s where
    "chooseGroup normals xs (Fin (- (1001 / 1000))) = edgeSplitToGroups normals xs (Fin (- (1001 / 1000))) s"
    by blast
  then have "splitGroup (chooseGroup normals xs (Fin (- (1001 / 1000)))) = []"
    by (simp add: edgeSplitToGroups_filter normalized_dot_not_below)
  then show ?thesis by (subst edgeSplit.simps) simp
qed

lemma splitIndexesOf_pi:
  assumes "splitIndexesOf ixs positions (Fin pi) = Inr sps"
  shows "sps = []"
proof -
  from splitIndexesOf_Inr[OF assms] obtain m where
    "splitAll (computeNormals ixs positions) (cutOffOf (Fin pi)) m = Inr sps" by blast
  from splitAll_Inr[OF this] show ?thesis
    by (simp add: cutOffOf_pi edgeSplit_pi)
qed

lemma restore_vertex:
  "foldl (\<lambda>arr j. arr[3 * i + j := f32_get oldNormals (Some (3 * i + j))]) arr [0 ..< 3]
     = arr[3 * i := f32_get oldNormals (Some (3 * i)),
           3 * i + 1 := f32_get oldNormals (Some (3 * i + 1)),
           3 * i + 2 := f32_get oldNormals (Some (3 * i + 2))]"
  by (simp add: upt_rec numeral_3_eq_3)

lemma restore_prefix:
  assumes "m \<le> n" "length oldNormals = 3 * n"
  shows "length (foldl (\<lambda>arr i. if replicate n False ! i = False
                     then foldl (\<lambda>arr j. arr[3 * i + j := f32_get oldNormals (Some (3 * i + j))]) arr [0 ..< 3]
                     else arr) arr [0 ..< m]) = length arr
     \<and> (\<forall>q < length arr.
          foldl (\<lambda>arr i. if replicate n False ! i = False
                     then foldl (\<lambda>arr j. arr[3 * i + j := f32_get oldNormals (Some (3 * i + j))]) arr [0 ..< 3]
                     else arr) arr [0 ..< m] ! q = (if q < 3 * m then oldNormals ! q else arr ! q))"
  using assms(1)
proof (induction m)
  case 0
  then show ?case by simp
next
  case (Suc m)
  define R where "R = foldl (\<lambda>arr i. if replicate n False ! i = False
                     then foldl (\<lambda>arr j. arr[3 * i + j := f32_get oldNormals (Some (3 * i + j))]) arr [0 ..< 3]
                     else arr) arr [0 ..< m]"
  from Suc.prems have m: "m < n" by simp
  then have "m \<le> n" by simp
  from Suc.IH[OF this] have IH: "length R = length arr
     \<and> (\<forall>q < length arr. R ! q = (if q < 3 * m then oldNormals ! q else arr ! q))"
    unfolding R_def .
  have old: "f32_get oldNormals (Some (3 * m + j)) = oldNormals ! (3 * m + j)" if "j < 3" for j
    using that m assms(2) by (simp add: f32_get_def)
  have step: "foldl (\<lambda>arr i. if replicate n False ! i = False
                     then foldl (\<lambda>arr j. arr[3 * i + j := f32_get oldNormals (Some (3 * i + j))]) arr [0 ..< 3]
                     else arr) arr [0 ..< Suc m]
      = R[3 * m := oldNormals ! (3 * m), 3 * m + 1 := oldNormals ! (3 * m + 1), 3 * m + 2 := oldNormals ! (3 * m + 2)]"
    using m old[of 0] old[of 1] old[of 2] by (simp add: R_def restore_vertex)
  show ?case
    unfolding step
  proof (intro conjI allI impI)
    show "length (R[3 * m := oldNormals ! (3 * m), 3 * m + 1 := oldNormals ! (3 * m + 1),
        3 * m + 2 := oldNormals ! (3 * m + 2)]) = length arr"
      using IH by simp
  next
    fix q assume q: "q < length arr"
    with IH have Rq: "R ! q = (if q < 3 * m then oldNormals ! q else arr ! q)" and len: "length R = length arr"
      by simp_all
    have "q < 3 * m \<or> q = 3 * m \<or> q = 3 * m + 1 \<or> q = 3 * m + 2 \<or> 3 * Suc m \<le> q"
      by arith
    then consider "q < 3 * m" | "q = 3 * m" | "q = 3 * m + 1" | "q = 3 * m + 2" | "3 * Suc m \<le> q"
      by blast
    then show "R[3 * m := oldNormals ! (3 * m), 3 * m + 1 := oldNormals ! (3 * m + 1),
        3 * m + 2 := oldNormals ! (3 * m + 2)] ! q = (if q < 3 * Suc m then oldNormals ! q else arr ! q)"
      using q Rq len by cases (simp_all add: nth_list_update)
  qed
qed

text \<open>With no entry in \<open>splitIndexes\<close>, the loop of lines 269 to 278 restores every normal.\<close>

lemma restore_all:
  assumes "length oldNormals = 3 * n" "length arr = 3 * n"
  shows "restoreNormals oldNormals (changedNormalsOf oldNormals []) arr = oldNormals"
proof -
  have c: "changedNormalsOf oldNormals [] = replicate n False"
    using assms(1) by (simp add: changedNormalsOf_def)
  from restore_prefix[OF le_refl assms(1), of arr]
  have "length (restoreNormals oldNormals (replicate n False) arr) = length arr"
    "\<forall>q < length arr. restoreNormals oldNormals (replicate n False) arr ! q = (if q < 3 * n then oldNormals ! q else arr ! q)"
    unfolding restoreNormals_def by simp_all
  with assms show ?thesis
    unfolding c by (intro nth_equalityI) simp_all
qed

lemma grown_same: "length (array a) = V * itemSize a \<Longrightarrow> grown V a = a"
  by (simp add: grown_def)

lemma grown_all_same:
  assumes "\<forall>na \<in> set attrs. length (array (snd na)) = V * itemSize (snd na)"
  shows "map (\<lambda>na. (fst na, grown V (snd na))) attrs = attrs"
  using assms by (induction attrs) (simp_all add: grown_same)

lemma map_of_append_new: "map_of xs k = None \<Longrightarrow> map_of (xs @ [(k, v)]) k = Some v"
  by (induction xs) (auto split: if_splits)

lemma map_of_map_at_key:
  "map_of xs k = Some v \<Longrightarrow>
     map_of (map (\<lambda>na. if fst na = k then (fst na, F (snd na)) else na) xs) k = Some (F v)"
  by (induction xs) (auto split: if_splits)

text \<open>
  Lines 188 to 285 at the angle \<open>\<pi>\<close>, on a geometry whose attributes all hold as many
  vertices as the position attribute: nothing is split, and the geometry is rebuilt as
  it was.
\<close>

lemma rebuild_pi:
  assumes ixs: "index g = Some ixs" and p: "getAttribute g ''position'' = Some p"
    and fits: "\<forall>na \<in> set (attributes g). length (array (snd na)) = count p * itemSize (snd na)"
    and out: "rebuild cvn g (Fin pi) hadNormals oldNormals = Inr out"
  shows "splitIndexesOf ixs (array p) (Fin pi) = Inr []"
    and "(if hadNormals then
           (case oldNormals of
              None \<Rightarrow> Inr (computeVertexNormals cvn \<lparr>isGeometry = False, index = Some ixs, attributes = attributes g\<rparr>)
            | Some old \<Rightarrow> reconcile old [] (computeVertexNormals cvn \<lparr>isGeometry = False, index = Some ixs, attributes = attributes g\<rparr>))
         else Inr \<lparr>isGeometry = False, index = Some ixs, attributes = attributes g\<rparr>) = Inr out"
proof -
  from rebuild_Inr[OF out] ixs p obtain sps where "splitIndexesOf ixs (array p) (Fin pi) = Inr sps"
    by auto
  with splitIndexesOf_pi[OF this] show sps: "splitIndexesOf ixs (array p) (Fin pi) = Inr []" by simp
  have V: "length (array p) div itemSize p = count p" by (simp add: count_def)
  have fits': "\<forall>na \<in> set (attributes g). length (array (snd na)) \<le> count p * itemSize (snd na)"
    using fits by simp
  have grow: "growAttributes (count p) (attributes g) = Inr (attributes g)"
    using growAttributes_fits[OF fits'] grown_all_same[OF fits] by simp
  have "rebuild cvn g (Fin pi) hadNormals oldNormals = (if hadNormals then
           (case oldNormals of
              None \<Rightarrow> Inr (computeVertexNormals cvn \<lparr>isGeometry = False, index = Some ixs, attributes = attributes g\<rparr>)
            | Some old \<Rightarrow> reconcile old [] (computeVertexNormals cvn \<lparr>isGeometry = False, index = Some ixs, attributes = attributes g\<rparr>))
         else Inr \<lparr>isGeometry = False, index = Some ixs, attributes = attributes g\<rparr>)"
    by (simp add: rebuild_def ixs p sps V grow applySplits_def Let_def split: option.splits)
  with out show "(if hadNormals then
           (case oldNormals of
              None \<Rightarrow> Inr (computeVertexNormals cvn \<lparr>isGeometry = False, index = Some ixs, attributes = attributes g\<rparr>)
            | Some old \<Rightarrow> reconcile old [] (computeVertexNormals cvn \<lparr>isGeometry = False, index = Some ixs, attributes = attributes g\<rparr>))
         else Inr \<lparr>isGeometry = False, index = Some ixs, attributes = attributes g\<rparr>) = Inr out"
    by (simp only:)
qed

lemma reconcile_pi:
  assumes p: "map_of attrs ''position'' = Some p" and p3: "itemSize p = 3"
    and lenp: "length (array p) = 3 * n" and lenold: "length old = 3 * n"
    and nonormal: "map_of attrs ''normal'' = None"
    and out: "reconcile old [] (computeVertexNormals cvn \<lparr>isGeometry = False, index = Some ixs, attributes = attrs\<rparr>) = Inr out"
  shows "getAttribute out ''normal'' = Some \<lparr>array = old, itemSize = 3, normalized = False\<rparr>"
proof -
  define f where "f = cvn ixs (array p)"
  define n0 where "n0 = \<lparr>array = map f [0 ..< 3 * n], itemSize = 3, normalized = False\<rparr>"
  have cnt: "count p = n" using p3 lenp by (simp add: count_def)
  have g2: "computeVertexNormals cvn \<lparr>isGeometry = False, index = Some ixs, attributes = attrs\<rparr>
      = \<lparr>isGeometry = False, index = Some ixs, attributes = attrs @ [(''normal'', n0)]\<rparr>"
    using p nonormal by (simp add: computeVertexNormals_def getAttribute_def Let_def cnt n0_def f_def)
  have look: "map_of (attrs @ [(''normal'', n0)]) ''normal'' = Some n0"
    by (rule map_of_append_new[OF nonormal])
  define F where "F = (\<lambda>a :: BufferAttribute. a\<lparr>array := restoreNormals old (changedNormalsOf old []) (array a)\<rparr>)"
  from out have "out = \<lparr>isGeometry = False, index = Some ixs,
      attributes = map (\<lambda>na. if fst na = ''normal'' then (fst na, F (snd na)) else na) (attrs @ [(''normal'', n0)])\<rparr>"
    unfolding g2 F_def using lenold look by (simp add: reconcile_def getAttribute_def Let_def)
  then have "getAttribute out ''normal'' = Some (F n0)"
    using map_of_map_at_key[OF look, of F] by (simp add: getAttribute_def)
  moreover have "restoreNormals old (changedNormalsOf old []) (map f [0 ..< 3 * n]) = old"
    by (rule restore_all[OF lenold]) simp
  ultimately show ?thesis by (simp add: F_def n0_def)
qed

text \<open>
  Claim C6. When \<open>modify\<close> returns a mesh for a valid mesh at the angle \<open>\<pi>\<close>, the
  threshold is \<open>-1.001\<close> and no dot product of normalized vectors is below it:
  \<open>splitIndexes\<close> is empty, so no vertex is added; the index buffer and every
  attribute other than the normal, the positions among them, are those of the input;
  and when the authored normals are to be kept, the normals are those of the input too.
\<close>

theorem angle_pi_splits_nothing:
  assumes "valid_mesh (h ! r)"
    and "index (h ! r) = Some ixs" and "getAttribute (h ! r) ''position'' = Some p"
    and "modify utils cvn h r (Fin pi) tryKeepNormals = (h', Inr out)"
  shows "splitIndexesOf ixs (array p) (Fin pi) = Inr []
     \<and> index out = Some ixs
     \<and> (\<forall>name. name \<noteq> ''normal'' \<longrightarrow> getAttribute out name = getAttribute (h ! r) name)
     \<and> (tryKeepNormals \<longrightarrow>
           map_option array (getAttribute out ''normal'') = map_option array (getAttribute (h ! r) ''normal''))"
proof -
  from valid_meshD[OF assms(1)] assms(2,3) have v: "\<not> isGeometry (h ! r)" "itemSize p = 3"
    "\<forall>na \<in> set (attributes (h ! r)). length (array (snd na)) = count p * itemSize (snd na)"
    "\<forall>n. getAttribute (h ! r) ''normal'' = Some n \<longrightarrow> itemSize n = 3" by auto
  show ?thesis
  proof (cases "getAttribute (h ! r) ''normal''")
    case None
    with assms(2,4) v(1) have r: "rebuild cvn (h ! r) (Fin pi) False None = Inr out"
      by (auto simp: modify_indexed)
    from rebuild_pi[OF assms(2,3) v(3) r]
    have "splitIndexesOf ixs (array p) (Fin pi) = Inr []"
      "out = \<lparr>isGeometry = False, index = Some ixs, attributes = attributes (h ! r)\<rparr>"
      by simp_all
    with None show ?thesis by (simp add: getAttribute_def)
  next
    case (Some n)
    define g where "g = deleteAttribute (h ! r) ''normal''"
    define oldNormals where "oldNormals = (if tryKeepNormals then Some (array n) else None)"
    define g1 where "g1 = \<lparr>isGeometry = False, index = Some ixs, attributes = attributes g\<rparr>"
    from Some assms(2,4) v(1) have r: "rebuild cvn g (Fin pi) True oldNormals = Inr out"
      by (auto simp: modify_indexed g_def oldNormals_def)
    have gi: "index g = Some ixs" "getAttribute g ''position'' = Some p"
      "getAttribute g ''normal'' = None"
      "\<And>name. name \<noteq> ''normal'' \<Longrightarrow> getAttribute g name = getAttribute (h ! r) name"
      using assms(2,3) by (simp_all add: g_def deleteAttribute_props)
    have "set (attributes g) \<subseteq> set (attributes (h ! r))"
      by (auto simp: g_def deleteAttribute_def)
    with v(3) have fits: "\<forall>na \<in> set (attributes g). length (array (snd na)) = count p * itemSize (snd na)"
      by blast
    from rebuild_pi[OF gi(1,2) fits r]
    have sps: "splitIndexesOf ixs (array p) (Fin pi) = Inr []"
      and o: "(case oldNormals of
              None \<Rightarrow> Inr (computeVertexNormals cvn g1)
            | Some old \<Rightarrow> reconcile old [] (computeVertexNormals cvn g1)) = Inr out"
      unfolding g1_def by simp_all
    have g1: "index g1 = Some ixs" "\<And>name. getAttribute g1 name = getAttribute g name"
      unfolding g1_def by (simp_all add: getAttribute_def)
    have other: "index out = Some ixs \<and> (\<forall>name. name \<noteq> ''normal'' \<longrightarrow> getAttribute out name = getAttribute (h ! r) name)"
    proof (cases oldNormals)
      case None
      with o have "out = computeVertexNormals cvn g1" by simp
      then show ?thesis by (simp add: computeVertexNormals_other g1 gi(4))
    next
      case (Some old)
      with o have "reconcile old [] (computeVertexNormals cvn g1) = Inr out" by simp
      from reconcile_other[OF this] show ?thesis by (simp add: computeVertexNormals_other g1 gi(4))
    qed
    have keep: "map_option array (getAttribute out ''normal'') = map_option array (getAttribute (h ! r) ''normal'')"
      if "tryKeepNormals"
    proof -
      from that o have rc: "reconcile (array n) [] (computeVertexNormals cvn
          \<lparr>isGeometry = False, index = Some ixs, attributes = attributes g\<rparr>) = Inr out"
        by (simp add: oldNormals_def g1_def)
      from assms(3) have "(''position'', p) \<in> set (attributes (h ! r))"
        unfolding getAttribute_def by (rule map_of_SomeD)
      with v(2,3) have lenp: "length (array p) = 3 * count p" by auto
      from Some have "(''normal'', n) \<in> set (attributes (h ! r))"
        unfolding getAttribute_def by (rule map_of_SomeD)
      with v(3,4) Some have lenn: "length (array n) = 3 * count p" by auto
      from reconcile_pi[OF gi(2)[unfolded getAttribute_def] v(2) lenp lenn gi(3)[unfolded getAttribute_def] rc]
      show ?thesis by (simp add: Some)
    qed
    from sps other keep show ?thesis by blast
  qed
qed

lemma splitsA_pi: "splitIndexesOf ixsA posA (Fin pi) = Inr []"
  by (simp add: splitIndexesOf_def mapA cutOffOf_pi edgeSplit_pi)

lemma modifyA_pi:
  "modify utils cvn [meshA] 0 (Fin pi) True = ([meshA, deleteAttribute meshA ''normal''], Inr meshA)"
proof -
  have len: "length posA = 15" "length uvA = 10" "length nrmA = 3 * 5"
    by (simp_all add: posA_def uvA_def nrmA_def)
  have restore: "restoreNormals nrmA (changedNormalsOf nrmA []) (map f [0 ..< 15]) = nrmA" for f
    by (rule restore_all[OF len(3)]) simp
  have "rebuild cvn (deleteAttribute meshA ''normal'') (Fin pi) True (Some nrmA) = Inr meshA"
    by (subst meshA_noNormal)
      (simp add: rebuild_def getAttribute_def splitsA_pi growAttribute_def Let_def len applySplits_def
        computeVertexNormals_def count_def reconcile_def restore meshA_def)
  moreover have "\<not> isGeometry ([meshA] ! 0)" "index ([meshA] ! 0) = Some ixsA"
    "getAttribute ([meshA] ! 0) ''normal'' = Some \<lparr>array = nrmA, itemSize = 3, normalized = False\<rparr>"
    by (simp_all add: meshA_def getAttribute_def)
  ultimately show ?thesis
    by (simp add: modify_indexed)
qed

theorem angle_pi_splits_nothing_witness:
  "valid_mesh meshA
   \<and> modify None cvn0 [meshA] 0 (Fin pi) True = ([meshA, deleteAttribute meshA ''normal''], Inr meshA)
   \<and> splitIndexesOf ixsA posA (Fin pi) = Inr []
   \<and> map_option array (getAttribute meshA ''normal'') = Some nrmA"
proof -
  have valid0: "valid_mesh ([meshA] ! 0)" by (simp add: valid_meshA)
  from angle_pi_splits_nothing[OF valid0 meshA_parts(1,2) modifyA_pi[of None cvn0]]
  have "splitIndexesOf ixsA posA (Fin pi) = Inr []" by simp
  moreover have "map_option array (getAttribute meshA ''normal'') = Some nrmA"
    using meshA_parts(4) by simp
  ultimately show ?thesis
    using valid_meshA modifyA_pi[of None cvn0] by simp
qed

section \<open>The face normals of a mesh without NaN\<close>

lemma sub_fin: "sub (Vector3 (Fin a) (Fin b) (Fin c)) (Vector3 (Fin p) (Fin q) (Fin r))
    = Vector3 (Fin (a - p)) (Fin (b - q)) (Fin (c - r))"
  by (simp add: sub_def)

lemma cross_fin: "\<exists>x y z. cross (Vector3 (Fin a) (Fin b) (Fin c)) (Vector3 (Fin p) (Fin q) (Fin r))
    = Vector3 (Fin x) (Fin y) (Fin z)"
  by (simp add: cross_def)

lemma faceNormal_fin:
  assumes "NaN \<notin> set positions" and "\<forall>i \<in> set ixs. 3 * i + 2 < length positions"
    and "i + 2 < length ixs"
  shows "\<exists>x y z. faceNormal ixs positions i = Vector3 (Fin x) (Fin y) (Fin z)"
proof -
  have at: "\<exists>a b c. vec_at positions (idx_get ixs j) = Vector3 (Fin a) (Fin b) (Fin c)" if "j < length ixs" for j
  proof -
    from that have "ixs ! j \<in> set ixs" by simp
    with assms(2) have "3 * (ixs ! j) + 2 < length positions" by blast
    from vec_at_fin[OF assms(1) this] that show ?thesis by (simp add: idx_get_def)
  qed
  from at[of i] at[of "i + 1"] at[of "i + 2"] assms(3) obtain a b c a' b' c' a'' b'' c'' where
    v: "vec_at positions (idx_get ixs i) = Vector3 (Fin a) (Fin b) (Fin c)"
       "vec_at positions (idx_get ixs (i + 1)) = Vector3 (Fin a') (Fin b') (Fin c')"
       "vec_at positions (idx_get ixs (i + 2)) = Vector3 (Fin a'') (Fin b'') (Fin c'')"
    by auto
  from cross_fin obtain x y z where cr:
    "cross (Vector3 (Fin (a'' - a')) (Fin (b'' - b')) (Fin (c'' - c'))) (Vector3 (Fin (a - a')) (Fin (b - b')) (Fin (c - c')))
      = Vector3 (Fin x) (Fin y) (Fin z)" by blast
  have "faceNormal ixs positions i = normalizeV (Vector3 (Fin x) (Fin y) (Fin z))"
    unfolding faceNormal_def Let_def v sub_fin cr ..
  with normalize_fin[of x y z] show ?thesis by simp
qed

lemma length_concat_normals:
  "length (concat (map (\<lambda>t. let normal = f t in concat (replicate 3 [vx normal, vy normal, vz normal])) ts))
     = 9 * length ts"
  by (induction ts) (simp_all add: Let_def numeral_3_eq_3)

text \<open>
  The face normals of an index buffer of whole triangles whose entries are vertices of
  a position buffer without NaN: three components per corner, none of them NaN.
\<close>

lemma computeNormals_fin:
  assumes "NaN \<notin> set positions" and "\<forall>i \<in> set ixs. 3 * i + 2 < length positions"
    and "length ixs mod 3 = 0"
  shows "NaN \<notin> set (computeNormals ixs positions)"
    and "length (computeNormals ixs positions) = 3 * length ixs"
proof -
  from assms(3) obtain T where T: "length ixs = 3 * T" by (auto simp: mod_eq_0_iff_dvd)
  have ts: "(length ixs + 2) div 3 = T" by (simp add: T)
  show "length (computeNormals ixs positions) = 3 * length ixs"
    by (simp add: computeNormals_def length_concat_normals ts T)
  show "NaN \<notin> set (computeNormals ixs positions)"
  proof
    assume "NaN \<in> set (computeNormals ixs positions)"
    then have "NaN \<in> set (concat (map (\<lambda>t. let normal = faceNormal ixs positions (3 * t)
                          in concat (replicate 3 [vx normal, vy normal, vz normal])) [0 ..< T]))"
      unfolding computeNormals_def ts by (rule in_set_takeD)
    then obtain t where t: "t < T"
      "NaN \<in> {vx (faceNormal ixs positions (3 * t)), vy (faceNormal ixs positions (3 * t)),
              vz (faceNormal ixs positions (3 * t))}"
      by (auto simp: Let_def split: if_splits)
    from t(1) have "3 * t + 2 < length ixs" by (simp add: T)
    from faceNormal_fin[OF assms(1,2) this] t(2) show False by auto
  qed
qed

lemma edgeSplit_single_Some:
  "edgeSplit normals [x] cutOff (Some n) = [\<lparr>original = n, indexes = [x]\<rparr>]"
  by (subst edgeSplit.simps) (simp add: chooseGroup_def longer_def edgeSplitToGroups_filter)

lemma compatibleA:
  "\<not> compatible (computeNormals ixsA posA) (999 / 1000) 3 0"
  "\<not> compatible (computeNormals ixsA posA) (999 / 1000) 0 3"
  by (simp_all add: compatible_def normalsA_vec dot_def)

theorem partitioner_emits_first_largest_witness:
  "edgeSplitToGroups (computeNormals ixsA posA) [0, 3] (Fin (999 / 1000)) 0 = \<lparr>splitGroup = [3], currentGroup = [0]\<rparr>
   \<and> edgeSplitToGroups (computeNormals ixsA posA) [0, 3] (Fin (999 / 1000)) 3 = \<lparr>splitGroup = [0], currentGroup = [3]\<rparr>
   \<and> chooseGroup (computeNormals ixsA posA) [0, 3] (Fin (999 / 1000)) = \<lparr>splitGroup = [3], currentGroup = [0]\<rparr>
   \<and> edgeSplit (computeNormals ixsA posA) [0, 3] (Fin (999 / 1000)) None = [\<lparr>original = 0, indexes = [3]\<rparr>]"
proof -
  define nA where "nA = computeNormals ixsA posA"
  have pos: "NaN \<notin> set posA" by (auto simp: posA_def)
  have rng: "\<forall>i \<in> set ixsA. 3 * i + 2 < length posA" by (simp add: ixsA_def posA_def)
  have tri: "length ixsA mod 3 = 0" by (simp add: ixsA_def)
  have h1: "[0, 3::nat] \<noteq> []" by simp
  have h2: "NaN \<notin> set nA" unfolding nA_def by (rule computeNormals_fin(1)[OF pos rng tri])
  have "length nA = 18" unfolding nA_def using computeNormals_fin(2)[OF pos rng tri] by (simp add: ixsA_def)
  then have h3: "\<forall>x \<in> set [0, 3::nat]. 3 * x + 2 < length nA" by simp
  note inst = partitioner_emits_first_largest[OF h1 h2 h3, of "999 / 1000" None]
  from inst[THEN conjunct1]
  have t0: "edgeSplitToGroups nA [0, 3] (Fin (999 / 1000)) 0 = \<lparr>splitGroup = [3], currentGroup = [0]\<rparr>"
    and t3: "edgeSplitToGroups nA [0, 3] (Fin (999 / 1000)) 3 = \<lparr>splitGroup = [0], currentGroup = [3]\<rparr>"
    by (simp_all add: compatibleA[folded nA_def])
  from inst[THEN conjunct2] obtain k where k: "k < length [0, 3::nat]"
    and chosen: "chooseGroup nA [0, 3] (Fin (999 / 1000)) = edgeSplitToGroups nA [0, 3] (Fin (999 / 1000)) ([0, 3] ! k)"
    and first: "\<forall>j < k. length (currentGroup (edgeSplitToGroups nA [0, 3] (Fin (999 / 1000)) ([0, 3] ! j)))
         < length (currentGroup (edgeSplitToGroups nA [0, 3] (Fin (999 / 1000)) ([0, 3] ! k)))"
    and emit: "edgeSplit nA [0, 3] (Fin (999 / 1000)) None =
               (case None of
                  None \<Rightarrow> []
                | Some n \<Rightarrow> [\<lparr>original = n,
                     indexes = [0, 3] ! k # filter (\<lambda>x. x \<noteq> [0, 3] ! k \<and> compatible nA (999 / 1000) x ([0, 3] ! k)) [0, 3]\<rparr>])
               @ (if filter (\<lambda>x. x \<noteq> [0, 3] ! k \<and> \<not> compatible nA (999 / 1000) x ([0, 3] ! k)) [0, 3] = [] then []
                  else edgeSplit nA (filter (\<lambda>x. x \<noteq> [0, 3] ! k \<and> \<not> compatible nA (999 / 1000) x ([0, 3] ! k)) [0, 3])
                         (Fin (999 / 1000)) (Some (or_else None ([0, 3] ! k))))"
    by blast
  from k have "k = 0 \<or> k = 1" by auto
  then have k0: "k = 0"
  proof
    assume "k = 1"
    with first[rule_format, of 0] t0 t3 show ?thesis by simp
  qed simp
  from chosen t0 have c: "chooseGroup nA [0, 3] (Fin (999 / 1000)) = \<lparr>splitGroup = [3], currentGroup = [0]\<rparr>"
    by (simp add: k0)
  from emit have "edgeSplit nA [0, 3] (Fin (999 / 1000)) None = [\<lparr>original = 0, indexes = [3]\<rparr>]"
    by (simp add: k0 compatibleA[folded nA_def] edgeSplit_single_Some)
  with t0 t3 c show ?thesis unfolding nA_def by simp
qed

section \<open>Meshes that are not valid\<close>

lemma cornersOf_empty: "cornersOf ixs (length ixs) v = [] \<longleftrightarrow> v \<notin> set ixs"
  by (auto simp: cornersOf_def filter_empty_conv in_set_conv_nth)

lemma splitIndexesOf_returns:
  assumes len3: "length positions mod 3 = 0"
    and nohole: "\<forall>v. (v < length positions div 3 \<or> (\<exists>i \<in> set ixs. v \<le> i)) \<longrightarrow> v \<in> set ixs"
  shows "\<exists>sps. splitIndexesOf ixs positions cutOffAngle = Inr sps"
proof -
  from pushCorner_foldl[OF le_refl, where ixs = ixs and V = "length positions div 3"] obtain len where
    m: "foldl (pushCorner ixs) (replicate (length positions div 3) None) [0 ..< length ixs]
          = map (entryOf ixs (length ixs)) [0 ..< len]"
    and shape: "len = length positions div 3 \<or> (\<exists>i < length ixs. len = Suc (ixs ! i))"
    by blast
  have "v \<in> set ixs" if "v < len" for v
    using shape
  proof
    assume "len = length positions div 3"
    with that nohole show ?thesis by simp
  next
    assume "\<exists>i < length ixs. len = Suc (ixs ! i)"
    then obtain i where i: "i < length ixs" "len = Suc (ixs ! i)" by blast
    then have "ixs ! i \<in> set ixs" "v \<le> ixs ! i" using that by simp_all
    with nohole show ?thesis by blast
  qed
  then have "None \<notin> set (map (entryOf ixs (length ixs)) [0 ..< len])"
    by (auto simp: entryOf_def cornersOf_empty)
  from splitAll_no_hole[OF this] show ?thesis
    using len3 by (simp add: splitIndexesOf_def mapPositionsToIndexes_def m)
qed

lemma computeVertexNormals_normal:
  assumes "getAttribute g ''position'' = Some p"
  shows "getAttribute (computeVertexNormals cvn g) ''normal'' \<noteq> None"
proof (cases "getAttribute g ''normal''")
  case None
  then have "map_of (attributes g) ''normal'' = None" by (simp add: getAttribute_def)
  from map_of_append_new[OF this] assms None show ?thesis
    by (simp add: computeVertexNormals_def getAttribute_def Let_def)
next
  case (Some n)
  then have look: "map_of (attributes g) ''normal'' = Some n" by (simp add: getAttribute_def)
  define F where "F = (\<lambda>a :: BufferAttribute.
      a\<lparr>array := map (cvn (case index g of None \<Rightarrow> [] | Some ixs \<Rightarrow> ixs) (array p)) [0 ..< length (array a)]\<rparr>)"
  from assms Some have "attributes (computeVertexNormals cvn g)
      = map (\<lambda>na. if fst na = ''normal'' then (fst na, F (snd na)) else na) (attributes g)"
    by (simp add: computeVertexNormals_def Let_def F_def)
  with map_of_map_at_key[OF look, of F] show ?thesis
    by (simp add: getAttribute_def)
qed

lemma reconcile_returns:
  assumes "length oldNormals mod 3 = 0" "getAttribute g ''normal'' \<noteq> None"
  shows "\<exists>out. reconcile oldNormals sps g = Inr out"
  using assms by (auto simp: reconcile_def Let_def)

text \<open>
  Lines 188 to 285 return a geometry as soon as the position array holds a multiple of
  three components, every entry of the corner index is referenced by a corner, no
  attribute array is longer than the vertex count allows and the length of the kept
  normals is a multiple of three.
\<close>

lemma rebuild_returns:
  assumes ixs: "index g = Some ixs" and p: "getAttribute g ''position'' = Some p"
    and len3: "length (array p) mod 3 = 0"
    and nohole: "\<forall>v. (v < length (array p) div 3 \<or> (\<exists>i \<in> set ixs. v \<le> i)) \<longrightarrow> v \<in> set ixs"
    and fits: "\<forall>na \<in> set (attributes g).
        length (array (snd na)) \<le> length (array p) div itemSize p * itemSize (snd na)"
    and old3: "\<forall>old. oldNormals = Some old \<longrightarrow> length old mod 3 = 0"
  shows "\<exists>out. rebuild cvn g cutOffAngle hadNormals oldNormals = Inr out"
proof -
  define V where "V = length (array p) div itemSize p"
  from splitIndexesOf_returns[OF len3 nohole] obtain sps where
    sps: "splitIndexesOf ixs (array p) cutOffAngle = Inr sps" by blast
  have "\<forall>na \<in> set (attributes g). length (array (snd na)) \<le> (V + length sps) * itemSize (snd na)"
  proof
    fix na assume "na \<in> set (attributes g)"
    with fits have "length (array (snd na)) \<le> V * itemSize (snd na)" by (simp add: V_def)
    also have "\<dots> \<le> (V + length sps) * itemSize (snd na)" by (intro mult_le_mono1) simp
    finally show "length (array (snd na)) \<le> (V + length sps) * itemSize (snd na)" .
  qed
  from growAttributes_fits[OF this] obtain newAttributes where
    grow: "growAttributes (V + length sps) (attributes g) = Inr newAttributes"
      "newAttributes = map (\<lambda>na. (fst na, grown (V + length sps) (snd na))) (attributes g)" by blast
  define st where "st = applySplits ixs V sps newAttributes"
  define g1 where "g1 = \<lparr>isGeometry = False, index = Some (snd st), attributes = fst st\<rparr>"
  have eq: "rebuild cvn g cutOffAngle hadNormals oldNormals = (if hadNormals then
           (case oldNormals of
              None \<Rightarrow> Inr (computeVertexNormals cvn g1)
            | Some old \<Rightarrow> reconcile old sps (computeVertexNormals cvn g1))
         else Inr g1)"
    unfolding g1_def st_def V_def
    by (simp add: rebuild_def ixs p sps grow(1)[unfolded V_def] Let_def split: option.splits)
  define C where "C = (\<lambda>a. foldl (\<lambda>a isp. copyVertex V (fst isp) (idx_get ixs (original (snd isp))) a)
      a (zip [0 ..< length sps] sps))"
  have "fst st = map (\<lambda>na. (fst na, C (snd na)))
      (map (\<lambda>na. (fst na, grown (V + length sps) (snd na))) (attributes g))"
    unfolding st_def applySplits_def applySplit_foldl_fst fst_conv grow(2) C_def ..
  then have "map_of (fst st) ''position''
      = map_option C (map_option (grown (V + length sps)) (map_of (attributes g) ''position''))"
    by (simp only: map_of_map_snd)
  then have "getAttribute g1 ''position'' \<noteq> None"
    using p by (simp add: g1_def getAttribute_def)
  then obtain p1 where "getAttribute g1 ''position'' = Some p1" by blast
  from computeVertexNormals_normal[OF this]
  have n: "getAttribute (computeVertexNormals cvn g1) ''normal'' \<noteq> None" .
  show ?thesis
  proof (cases "hadNormals \<and> oldNormals \<noteq> None")
    case False
    then show ?thesis unfolding eq by (auto split: option.splits)
  next
    case True
    then obtain old where old: "oldNormals = Some old" by blast
    with old3 have "length old mod 3 = 0" by simp
    from reconcile_returns[OF this n, of sps] True old show ?thesis
      unfolding eq by simp
  qed
qed

lemma length_ixsC: "length ixsC = 6"
  by (simp add: ixsC_def)

lemma faceNormalsC:
  "faceNormal ixsC posC 0 = Vector3 (Fin 0) (Fin 0) (Fin 1)"
  "faceNormal ixsC posC 3 = Vector3 NaN NaN NaN"
  by (simp_all add: ixsC_def posC_def faceNormal_def vec_at_def idx_get_def f32_get_def
     sub_def cross_def Let_def normalizeV_def divideScalar_def multiplyScalar_def vlength_def)

lemma normalsC:
  "computeNormals ixsC posC = [Fin 0, Fin 0, Fin 1, Fin 0, Fin 0, Fin 1, Fin 0, Fin 0, Fin 1,
     NaN, NaN, NaN, NaN, NaN, NaN, NaN, NaN, NaN]"
  by (simp add: computeNormals_def length_ixsC faceNormalsC eval_list upt_rec Let_def)

lemma mapC: "mapPositionsToIndexes posC ixsC = Inr [Some [Suc 0], Some [0, 3], Some [2, 4], Some [5]]"
  by (simp add: mapPositionsToIndexes_def pushCorner_def posC_def ixsC_def Let_def eval_list upt_rec)

lemma normalsC_vec:
  "vec_at (computeNormals ixsC posC) (Some 0) = Vector3 (Fin 0) (Fin 0) (Fin 1)"
  "vec_at (computeNormals ixsC posC) (Some 2) = Vector3 (Fin 0) (Fin 0) (Fin 1)"
  "vec_at (computeNormals ixsC posC) (Some 3) = Vector3 NaN NaN NaN"
  "vec_at (computeNormals ixsC posC) (Some 4) = Vector3 NaN NaN NaN"
  by (simp_all add: normalsC vec_at_def f32_get_def)

lemma normalize_NaN: "normalizeV (Vector3 NaN NaN NaN) = Vector3 NaN NaN NaN"
  by (simp add: normalizeV_def divideScalar_def multiplyScalar_def vlength_def)

lemma edgeSplitC:
  "edgeSplit (computeNormals ixsC posC) [0, 3] (Fin (999 / 1000)) None = []"
  "edgeSplit (computeNormals ixsC posC) [2, 4] (Fin (999 / 1000)) None = []"
  by (subst edgeSplit.simps,
      simp add: chooseGroup_def longer_def edgeSplitToGroups_filter normalsC_vec normalize_NaN dot_def)+

lemma splitsC: "splitIndexesOf ixsC posC (Fin 0) = Inr []"
  by (simp add: splitIndexesOf_def mapC cutOffOf_0 edgeSplit_single edgeSplitC)

lemma modifyC: "modify utils cvn [meshC] 0 (Fin 0) tryKeepNormals = ([meshC], Inr meshC)"
proof -
  have len: "length posC = 9" by (simp add: posC_def)
  have "rebuild cvn meshC (Fin 0) False None = Inr meshC"
    by (simp add: rebuild_def meshC_def getAttribute_def splitsC growAttribute_def Let_def len applySplits_def)
  moreover have "\<not> isGeometry ([meshC] ! 0)" "index ([meshC] ! 0) = Some ixsC"
    "getAttribute ([meshC] ! 0) ''normal'' = None"
    by (simp_all add: meshC_def getAttribute_def)
  ultimately show ?thesis
    by (simp add: modify_indexed)
qed

text \<open>
  Claim C3, as it is stated, fails on \<open>meshC\<close>: its index buffer references the vertex
  3 and its position attribute holds the three vertices 0, 1, 2, but \<open>modify\<close> raises
  no error and returns a mesh, whose index buffer still references the vertex 3.
\<close>

theorem out_of_range_index_is_not_rejected:
  "count \<lparr>array = posC, itemSize = 3, normalized = False\<rparr> = 3 \<and> ixsC ! 5 = 3
   \<and> index meshC = Some ixsC
   \<and> getAttribute meshC ''position'' = Some \<lparr>array = posC, itemSize = 3, normalized = False\<rparr>
   \<and> modify None cvn0 [meshC] 0 (Fin 0) True = ([meshC], Inr meshC)"
  by (simp add: modifyC) (simp add: count_def posC_def ixsC_def meshC_def getAttribute_def)

text \<open>
  Claim C3, amended. \<open>modify\<close> does not validate the topology of the mesh and has no
  error of its own for it. On an indexed buffer geometry whose position attribute has
  three components per vertex and an array of a multiple of three components, \<open>modify\<close>
  returns a mesh whenever every vertex index below the vertex count or below an
  entry of the index buffer is referenced by a corner, no attribute array is longer
  than the vertex count allows, and the array of a normal attribute has a multiple of
  three components: whether or not the entries of the index buffer are below the vertex
  count, and whether or not the attribute arrays are as long as the vertex count asks.
\<close>

theorem modify_returns_without_validating:
  assumes "\<not> isGeometry (h ! r)"
    and "index (h ! r) = Some ixs" and "getAttribute (h ! r) ''position'' = Some p"
    and "itemSize p = 3" and "length (array p) mod 3 = 0"
    and "\<forall>v. (v < length (array p) div 3 \<or> (\<exists>i \<in> set ixs. v \<le> i)) \<longrightarrow> v \<in> set ixs"
    and "\<forall>na \<in> set (attributes (h ! r)). length (array (snd na)) \<le> length (array p) div 3 * itemSize (snd na)"
    and "\<forall>n. getAttribute (h ! r) ''normal'' = Some n \<longrightarrow> length (array n) mod 3 = 0"
  shows "\<exists>h' out. modify utils cvn h r cutOffAngle tryKeepNormals = (h', Inr out)"
proof (cases "getAttribute (h ! r) ''normal''")
  case None
  have fits: "\<forall>na \<in> set (attributes (h ! r)).
      length (array (snd na)) \<le> length (array p) div itemSize p * itemSize (snd na)"
    using assms(7) by (simp add: assms(4))
  have "\<forall>old. (None :: number list option) = Some old \<longrightarrow> length old mod 3 = 0" by simp
  from rebuild_returns[OF assms(2,3,5,6) fits this, of cvn cutOffAngle False]
  obtain out where "rebuild cvn (h ! r) cutOffAngle False None = Inr out" by blast
  with None assms(1,2) show ?thesis by (simp add: modify_indexed)
next
  case (Some n)
  define g where "g = deleteAttribute (h ! r) ''normal''"
  define oldNormals where "oldNormals = (if tryKeepNormals then Some (array n) else None)"
  have gi: "index g = Some ixs" "getAttribute g ''position'' = Some p"
    using assms(2,3) by (simp_all add: g_def deleteAttribute_props)
  have "set (attributes g) \<subseteq> set (attributes (h ! r))"
    by (auto simp: g_def deleteAttribute_def)
  with assms(7) have fits: "\<forall>na \<in> set (attributes g).
      length (array (snd na)) \<le> length (array p) div itemSize p * itemSize (snd na)"
    by (auto simp: assms(4))
  have old3: "\<forall>old. oldNormals = Some old \<longrightarrow> length old mod 3 = 0"
    using assms(8) Some by (simp add: oldNormals_def)
  from rebuild_returns[OF gi assms(5,6) fits old3, of cvn cutOffAngle True]
  obtain out where "rebuild cvn g cutOffAngle True oldNormals = Inr out" by blast
  with Some assms(1,2) show ?thesis by (simp add: modify_indexed g_def oldNormals_def)
qed

theorem modify_returns_without_validating_witness:
  "list_ex (\<lambda>i. \<not> i < count \<lparr>array = posC, itemSize = 3, normalized = False\<rparr>) ixsC
   \<and> (\<exists>h' out. modify None cvn0 [meshC] 0 (Fin pi) False = (h', Inr out))"
proof -
  define pC where "pC = \<lparr>array = posC, itemSize = 3, normalized = False\<rparr>"
  have a: "\<not> isGeometry ([meshC] ! 0)" "index ([meshC] ! 0) = Some ixsC"
    "getAttribute ([meshC] ! 0) ''position'' = Some pC" "itemSize pC = 3" "length (array pC) mod 3 = 0"
    by (simp_all add: meshC_def getAttribute_def pC_def posC_def)
  have len: "length (array pC) div 3 = 3" by (simp add: pC_def posC_def)
  have set: "set ixsC = {0, 1, 2, 3}" by (auto simp: ixsC_def)
  have b: "\<forall>v. (v < length (array pC) div 3 \<or> (\<exists>i \<in> set ixsC. v \<le> i)) \<longrightarrow> v \<in> set ixsC"
    unfolding len set by auto
  have c: "\<forall>na \<in> set (attributes ([meshC] ! 0)). length (array (snd na)) \<le> length (array pC) div 3 * itemSize (snd na)"
    by (simp add: meshC_def pC_def posC_def)
  have d: "\<forall>n. getAttribute ([meshC] ! 0) ''normal'' = Some n \<longrightarrow> length (array n) mod 3 = 0"
    by (simp add: meshC_def getAttribute_def)
  from modify_returns_without_validating[OF a b c d, of None cvn0 "Fin pi" False]
  have "\<exists>h' out. modify None cvn0 [meshC] 0 (Fin pi) False = (h', Inr out)" .
  moreover have "list_ex (\<lambda>i. \<not> i < count \<lparr>array = posC, itemSize = 3, normalized = False\<rparr>) ixsC"
    by (simp add: count_def posC_def ixsC_def)
  ultimately show ?thesis by simp
qed

section \<open>The cut-off angle 0\<close>

























end
